theory Spec2Isabelle
  imports Main "HOL-Library.Word" "HOL-Library.Multiset"
begin

section \<open>DiskSort: a disk-backed bucket sort\<close>

text \<open>
  A shallow embedding of \<^verbatim>\<open>include/chia/DiskSort.hpp\<close>. Every member function of
  \<^verbatim>\<open>DiskSort<T, Key>\<close> becomes a function on the pair of the object and the file
  system; it returns the exception thrown (if any) together with the state it leaves
  behind, so that what a failed call has changed can be stated.
\<close>

subsection \<open>Exceptions\<close>

text \<open>
  \<^verbatim>\<open>std::logic_error\<close> and \<^verbatim>\<open>std::runtime_error\<close> carry the message of the throw
  site. \<open>Undefined\<close> marks the places where C++ gives the operation no meaning
  (a null \<^verbatim>\<open>FILE*\<close> passed to stdio, a shift by a count outside the word, a division
  by zero, a write past the end of the buffer): the model stops there.
\<close>

datatype error = Logic_error string | Runtime_error string | Undefined string

type_synonym byte = "8 word"

subsection \<open>The template parameters\<close>

text \<open>
  The record type \<^verbatim>\<open>T\<close> (with \<^verbatim>\<open>T::disk_size\<close>, \<^verbatim>\<open>write\<close>, \<^verbatim>\<open>read\<close>) and the key
  extractor \<^verbatim>\<open>Key\<close> are template parameters of the class; they are parameters here.
  \<open>T_write c e\<close> is the byte sequence \<^verbatim>\<open>e.write(p)\<close> stores at \<^verbatim>\<open>p\<close> (its length is
  the value returned), \<open>T_read c bs\<close> the entry \<^verbatim>\<open>read(p)\<close> decodes from the
  \<open>T_disk_size c\<close> bytes at \<^verbatim>\<open>p\<close>. A key is an unsigned 64-bit value, as the
  \<^verbatim>\<open>size_t\<close> bucket index and partition value computed from it are.

  \<open>std_sort c\<close> is the library's \<^verbatim>\<open>std::sort\<close> at \<^verbatim>\<open>T\<close> with the comparator
  \<^verbatim>\<open>Key{}(lhs) < Key{}(rhs)\<close>, as a function from the vector before the call to the vector
  after it. The standard fixes its result only up to the order of entries with equal keys
  (the sort need not be stable), so it is a parameter too.
\<close>

record 'a entry_ops =
  T_disk_size :: nat
  T_write :: "'a \<Rightarrow> byte list"
  T_read :: "byte list \<Rightarrow> 'a"
  Key :: "'a \<Rightarrow> 64 word"
  std_sort :: "'a list \<Rightarrow> 'a list"

text \<open>A serialised entry takes \<^verbatim>\<open>disk_size\<close> bytes and decodes to itself.\<close>

definition codec_ok :: "'a entry_ops \<Rightarrow> bool" where
  "codec_ok c \<longleftrightarrow>
     (\<forall>e. length (T_write c e) = T_disk_size c \<and> T_read c (T_write c e) = e)"

text \<open>What the standard promises of \<^verbatim>\<open>std::sort\<close>: a rearrangement in ascending key order.\<close>

definition sort_ok :: "'a entry_ops \<Rightarrow> bool" where
  "sort_ok c \<longleftrightarrow>
     (\<forall>xs. mset (std_sort c xs) = mset xs \<and> sorted (map (Key c) (std_sort c xs)))"

subsection \<open>Files and streams\<close>

text \<open>
  The file system holds the contents of each existing file, the number of bytes that
  can still be written before the device is full, the paths that cannot be opened, and
  the size of the buffer the C library gives a stream (\<^verbatim>\<open>BUFSIZ\<close>; the source never calls
  \<^verbatim>\<open>setvbuf\<close>, so every stream is fully buffered with that size).

  A stream is the \<^verbatim>\<open>FILE\<close> object behind a non-null \<^verbatim>\<open>FILE*\<close>. A writer holds the bytes
  that \<^verbatim>\<open>fwrite\<close> has accepted and that have not reached the file yet; a reader has a
  position.
\<close>

record filesystem =
  files :: "string \<rightharpoonup> byte list"
  free :: nat
  denied :: "string list"
  bufsiz :: nat

datatype stream = Writer string "byte list" | Reader string nat

definition file_size :: "filesystem \<Rightarrow> string \<Rightarrow> nat" where
  "file_size fs name = (case files fs name of None \<Rightarrow> 0 | Some d \<Rightarrow> length d)"

definition fopen :: "string \<Rightarrow> string \<Rightarrow> filesystem \<Rightarrow> stream option \<times> filesystem" where
  "fopen name mode fs =
     (if name \<in> set (denied fs) then (None, fs)
      else if mode = ''wb'' then
        (Some (Writer name []),
         fs\<lparr>files := (files fs)(name \<mapsto> []), free := free fs + file_size fs name\<rparr>)
      else (case files fs name of
              None \<Rightarrow> (None, fs)
            | Some d \<Rightarrow> (Some (Reader name 0), fs)))"

text \<open>
  The write to the device behind the stream functions: the bytes go to the end of the file,
  as many of them as the device has room for. The result is the number of bytes written.
\<close>

definition transmit :: "string \<Rightarrow> byte list \<Rightarrow> filesystem \<Rightarrow> nat \<times> filesystem" where
  "transmit name bytes fs =
     (case files fs name of
        None \<Rightarrow> (0, fs)
      | Some d \<Rightarrow>
          (let n = min (length bytes) (free fs)
           in (n, fs\<lparr>files := (files fs)(name \<mapsto> d @ take n bytes), free := free fs - n\<rparr>)))"

text \<open>
  \<^verbatim>\<open>fwrite(buf, 1, n, file)\<close> on a fully buffered stream: the number of bytes accepted, the
  stream and the file system. Nothing happens for \<open>n = 0\<close>. Bytes that fit in the stream's
  buffer stay there and the call reports all of them, whatever the state of the device.
  When they do not fit, the buffer and the new bytes are written to the device; the count
  is short when the device does not take them all.
\<close>

definition fwrite :: "byte list \<Rightarrow> stream \<Rightarrow> filesystem \<Rightarrow> nat \<times> stream \<times> filesystem" where
  "fwrite bs f fs =
     (case f of
        Reader name p \<Rightarrow> (0, f, fs)
      | Writer name pending \<Rightarrow>
          if bs = [] then (0, f, fs)
          else if length pending + length bs \<le> bufsiz fs
          then (length bs, Writer name (pending @ bs), fs)
          else (case transmit name (pending @ bs) fs of
                  (n, fs1) \<Rightarrow>
                    if n = length pending + length bs then (length bs, Writer name [], fs1)
                    else (n - length pending, Writer name (drop n pending), fs1)))"

text \<open>\<^verbatim>\<open>fread(buf, size, count, file)\<close>: the bytes read, the number of whole items, the stream moved on.\<close>

definition fread :: "nat \<Rightarrow> nat \<Rightarrow> stream \<Rightarrow> filesystem \<Rightarrow> byte list \<times> nat \<times> stream" where
  "fread sz cnt f fs =
     (case f of
        Writer name pending \<Rightarrow> ([], 0, f)
      | Reader name p \<Rightarrow>
          (case files fs name of
             None \<Rightarrow> ([], 0, f)
           | Some d \<Rightarrow>
               (let k = min cnt ((length d - p) div sz)
                in (take (k * sz) (drop p d), k, Reader name (p + k * sz)))))"

text \<open>
  \<^verbatim>\<open>fflush(file)\<close> writes the buffered bytes of a writer to the device. Its result tells
  whether all of them were written; bytes the device did not take stay in the buffer. The
  source calls it on non-null handles only.
\<close>

definition fflush :: "stream option \<Rightarrow> filesystem \<Rightarrow> bool \<times> stream option \<times> filesystem" where
  "fflush file fs =
     (case file of
        Some (Writer name pending) \<Rightarrow>
          (case transmit name pending fs of
             (n, fs1) \<Rightarrow> (n = length pending, Some (Writer name (drop n pending)), fs1))
      | _ \<Rightarrow> (True, file, fs))"

text \<open>
  \<^verbatim>\<open>fclose(file)\<close> on a writer writes the buffered bytes to the device first; what the device
  does not take is lost with the stream. The source ignores the result of the call. A null
  handle has no meaning here.
\<close>

definition fclose :: "stream option \<Rightarrow> filesystem \<Rightarrow> error option \<times> filesystem" where
  "fclose file fs =
     (case file of
        None \<Rightarrow> (Some (Undefined ''fclose(nullptr)''), fs)
      | Some (Writer name pending) \<Rightarrow> (None, snd (transmit name pending fs))
      | Some (Reader name p) \<Rightarrow> (None, fs))"

text \<open>\<^verbatim>\<open>std::remove(name)\<close>; the source ignores its result.\<close>

definition remove_file :: "string \<Rightarrow> filesystem \<Rightarrow> filesystem" where
  "remove_file name fs =
     fs\<lparr>files := (files fs)(name := None), free := free fs + file_size fs name\<rparr>"

subsection \<open>The object\<close>

text \<open>
  \<^verbatim>\<open>chia/DiskSort.h\<close>, which declares the class, is not among the sources: the fields
  below are the ones the member functions use. The capacity of a bucket's buffer,
  \<^verbatim>\<open>sizeof(bucket.buffer)\<close>, is the length of \<open>buffer\<close>; the constructor takes it as a
  parameter. Counters of type \<^verbatim>\<open>size_t\<close> are natural numbers.
\<close>

record bucket_t =
  "file" :: "stream option"
  file_name :: string
  offset :: nat
  num_entries :: nat
  buffer :: "byte list"

record DiskSort =
  key_size :: int
  log_num_buckets :: int
  num_threads :: int
  is_finished :: bool
  buckets :: "bucket_t list"

record 'a output_t =
  is_begin :: bool
  is_end :: bool
  block :: "'a list"

type_synonym world = "DiskSort \<times> filesystem"

subsection \<open>Constructor\<close>

text \<open>\<^verbatim>\<open>std::to_string\<close> on a \<^verbatim>\<open>size_t\<close>: the decimal digits.\<close>

definition digit :: "nat \<Rightarrow> char" where
  "digit n = ''0123456789'' ! n"

fun to_string :: "nat \<Rightarrow> string" where
  "to_string n = (if n < 10 then [digit n] else to_string (n div 10) @ [digit (n mod 10)])"

declare to_string.simps [simp del]

definition bucket_file_name :: "string \<Rightarrow> nat \<Rightarrow> string" where
  "bucket_file_name file_prefix i = file_prefix @ ''.sort_bucket_'' @ to_string i @ ''.tmp''"

fun open_buckets ::
  "string \<Rightarrow> nat \<Rightarrow> nat list \<Rightarrow> filesystem \<Rightarrow> error option \<times> bucket_t list \<times> filesystem" where
  "open_buckets file_prefix cap [] fs = (None, [], fs)"
| "open_buckets file_prefix cap (i # rest) fs =
     (case fopen (bucket_file_name file_prefix i) ''wb'' fs of
        (None, fs') \<Rightarrow> (Some (Runtime_error ''fopen() failed''), [], fs')
      | (Some f, fs') \<Rightarrow>
          (case open_buckets file_prefix cap rest fs' of
             (e, bs, fs'') \<Rightarrow>
               (e, \<lparr>file = Some f, file_name = bucket_file_name file_prefix i,
                    offset = 0, num_entries = 0, buffer = replicate cap 0\<rparr> # bs, fs'')))"

text \<open>
  \<^verbatim>\<open>1 << log_num_buckets\<close> is an \<^verbatim>\<open>int\<close> shift: it has a value for counts 0 to 30.
  A constructor that throws leaves no object.
\<close>

definition construct ::
  "int \<Rightarrow> int \<Rightarrow> int \<Rightarrow> string \<Rightarrow> nat \<Rightarrow> filesystem \<Rightarrow> (error + DiskSort) \<times> filesystem" where
  "construct ks lnb nt file_prefix cap fs =
     (if lnb < 0 \<or> 31 \<le> lnb then (Inl (Undefined ''1 << log_num_buckets''), fs)
      else (case open_buckets file_prefix cap [0..<2 ^ nat lnb] fs of
              (Some e, bs, fs') \<Rightarrow> (Inl e, fs')
            | (None, bs, fs') \<Rightarrow>
                (Inr \<lparr>key_size = ks, log_num_buckets = lnb, num_threads = nt,
                      is_finished = False, buckets = bs\<rparr>, fs')))"

subsection \<open>Ingestion: \<^verbatim>\<open>add\<close> and \<^verbatim>\<open>bucket_t::flush\<close>\<close>

text \<open>
  The stream lives in the bucket, so what \<^verbatim>\<open>fwrite\<close> does to the \<^verbatim>\<open>FILE\<close> object shows in
  \<open>file\<close>.
\<close>

definition flush :: "bucket_t \<Rightarrow> filesystem \<Rightarrow> error option \<times> bucket_t \<times> filesystem" where
  "flush b fs =
     (case file b of
        None \<Rightarrow> (Some (Undefined ''fwrite(nullptr)''), b, fs)
      | Some f \<Rightarrow>
          (case fwrite (take (offset b) (buffer b)) f fs of
             (n, f1, fs1) \<Rightarrow>
               if n \<noteq> offset b
               then (Some (Runtime_error ''fwrite() failed''), b\<lparr>file := Some f1\<rparr>, fs1)
               else (None, b\<lparr>file := Some f1, offset := 0\<rparr>, fs1)))"

text \<open>
  \<^verbatim>\<open>Key{}(entry) >> (key_size - log_num_buckets)\<close>, a shift of a 64-bit value by an
  \<^verbatim>\<open>int\<close> count: defined for counts 0 to 63.
\<close>

definition bucket_index :: "'a entry_ops \<Rightarrow> DiskSort \<Rightarrow> 'a \<Rightarrow> nat option" where
  "bucket_index c d entry =
     (let sh = key_size d - log_num_buckets d
      in if sh < 0 \<or> 64 \<le> sh then None
         else Some (unat (drop_bit (nat sh) (Key c entry))))"

text \<open>\<^verbatim>\<open>entry.write(bucket.buffer + bucket.offset)\<close>: the bytes land in the buffer at the offset.\<close>

definition store :: "byte list \<Rightarrow> nat \<Rightarrow> byte list \<Rightarrow> byte list" where
  "store buf off bytes = take off buf @ bytes @ drop (off + length bytes) buf"

definition add :: "'a entry_ops \<Rightarrow> 'a \<Rightarrow> world \<Rightarrow> error option \<times> world" where
  "add c entry w =
     (case w of (d, fs) \<Rightarrow>
        if is_finished d then (Some (Logic_error ''read only''), w)
        else (case bucket_index c d entry of
                None \<Rightarrow> (Some (Undefined ''shift count''), w)
              | Some index \<Rightarrow>
                  if index \<ge> length (buckets d) then (Some (Logic_error ''index out of range''), w)
                  else
                    (let bucket = buckets d ! index
                     in case (if offset bucket + T_disk_size c > length (buffer bucket)
                              then flush bucket fs else (None, bucket, fs)) of
                          (Some e, b', fs') \<Rightarrow> (Some e, (d\<lparr>buckets := (buckets d)[index := b']\<rparr>, fs'))
                        | (None, b', fs') \<Rightarrow>
                            (let bytes = T_write c entry
                             in if offset b' + length bytes > length (buffer b')
                                then (Some (Undefined ''buffer overrun''),
                                      (d\<lparr>buckets := (buckets d)[index := b']\<rparr>, fs'))
                                else (None,
                                      (d\<lparr>buckets := (buckets d)[index :=
                                           b'\<lparr>buffer := store (buffer b') (offset b') bytes,
                                              offset := offset b' + length bytes,
                                              num_entries := num_entries b' + 1\<rparr>]\<rparr>, fs'))))))"

text \<open>Ingesting a sequence of entries, one \<^verbatim>\<open>add\<close> after the other, up to the first exception.\<close>

fun add_all :: "'a entry_ops \<Rightarrow> 'a list \<Rightarrow> world \<Rightarrow> error option \<times> world" where
  "add_all c [] w = (None, w)"
| "add_all c (e # es) w =
     (case add c e w of
        (Some err, w') \<Rightarrow> (Some err, w')
      | (None, w') \<Rightarrow> add_all c es w')"

subsection \<open>Lifecycle: \<^verbatim>\<open>finish\<close> and \<^verbatim>\<open>clear\<close>\<close>

text \<open>
  The loop of \<^verbatim>\<open>finish\<close>: \<^verbatim>\<open>bucket.flush(); fflush(bucket.file);\<close> for every bucket. The
  result of \<^verbatim>\<open>fflush\<close> is not looked at.
\<close>

fun flush_buckets ::
  "bucket_t list \<Rightarrow> filesystem \<Rightarrow> error option \<times> bucket_t list \<times> filesystem" where
  "flush_buckets [] fs = (None, [], fs)"
| "flush_buckets (b # bs) fs =
     (case flush b fs of
        (Some e, b1, fs1) \<Rightarrow> (Some e, b1 # bs, fs1)
      | (None, b1, fs1) \<Rightarrow>
          (case fflush (file b1) fs1 of
             (flushed, f2, fs2) \<Rightarrow>
               (case flush_buckets bs fs2 of
                  (e, bs3, fs3) \<Rightarrow> (e, b1\<lparr>file := f2\<rparr> # bs3, fs3))))"

definition finish :: "world \<Rightarrow> error option \<times> world" where
  "finish w =
     (case w of (d, fs) \<Rightarrow>
        (case flush_buckets (buckets d) fs of
           (Some e, bs, fs') \<Rightarrow> (Some e, (d\<lparr>buckets := bs\<rparr>, fs'))
         | (None, bs, fs') \<Rightarrow> (None, (d\<lparr>buckets := bs, is_finished := True\<rparr>, fs'))))"

fun clear_buckets ::
  "bucket_t list \<Rightarrow> filesystem \<Rightarrow> error option \<times> bucket_t list \<times> filesystem" where
  "clear_buckets [] fs = (None, [], fs)"
| "clear_buckets (b # bs) fs =
     (case fclose (file b) fs of
        (Some e, fs1) \<Rightarrow> (Some e, b # bs, fs1)
      | (None, fs1) \<Rightarrow>
          (case clear_buckets bs (remove_file (file_name b) fs1) of
             (e, bs', fs') \<Rightarrow> (e, b\<lparr>file := None\<rparr> # bs', fs')))"

definition clear :: "world \<Rightarrow> error option \<times> world" where
  "clear w =
     (case w of (d, fs) \<Rightarrow>
        (case clear_buckets (buckets d) fs of
           (e, bs, fs') \<Rightarrow> (e, (d\<lparr>buckets := bs\<rparr>, fs'))))"

subsection \<open>Read/group stage: \<^verbatim>\<open>read_bucket\<close>\<close>

text \<open>
  \<^verbatim>\<open>std::unordered_map<size_t, std::vector<T>> table\<close> as an association list with one
  pair per key. \<open>table_push k e\<close> is \<^verbatim>\<open>table[k].push_back(e)\<close>: \<^verbatim>\<open>operator[]\<close> makes
  an empty block for a key not yet there.
\<close>

type_synonym 'a table = "(64 word \<times> 'a list) list"

fun table_push :: "64 word \<Rightarrow> 'a \<Rightarrow> 'a table \<Rightarrow> 'a table" where
  "table_push k e [] = [(k, [e])]"
| "table_push k e ((k', blk) # t) =
     (if k' = k then (k', blk @ [e]) # t else (k', blk) # table_push k e t)"

text \<open>
  \<^verbatim>\<open>std::map<size_t, std::vector<T>> sorted\<close> as an association list in ascending key
  order, which is the order its iteration visits. \<^verbatim>\<open>emplace\<close> inserts unless the key
  is present.
\<close>

fun map_emplace :: "64 word \<Rightarrow> 'v \<Rightarrow> (64 word \<times> 'v) list \<Rightarrow> (64 word \<times> 'v) list" where
  "map_emplace k v [] = [(k, v)]"
| "map_emplace k v ((k', v') # m) =
     (if k < k' then (k, v) # (k', v') # m
      else if k = k' then (k', v') # m
      else (k', v') # map_emplace k v m)"

definition chunk_N :: nat where
  "chunk_N = 65536"

text \<open>The inner loop over the \<open>num\<close> entries of one chunk held in \<open>buf\<close>.\<close>

definition group_chunk :: "'a entry_ops \<Rightarrow> 64 word \<Rightarrow> byte list \<Rightarrow> nat \<Rightarrow> 'a table \<Rightarrow> 'a table" where
  "group_chunk c M buf num tbl =
     foldl (\<lambda>t k.
        let entry = T_read c (take (T_disk_size c) (drop (k * T_disk_size c) buf))
        in table_push (Key c entry div M) entry t) tbl [0..<num]"

text \<open>
  The outer loop, \<^verbatim>\<open>for(size_t i = 0; i < bucket.num_entries;)\<close>. Every chunk holds at
  least one entry, so \<^verbatim>\<open>Key{}(entry) / M\<close> is evaluated in each chunk that was read: with
  \<^verbatim>\<open>M = 0\<close> the division has no value.
\<close>

function read_chunks ::
  "'a entry_ops \<Rightarrow> 64 word \<Rightarrow> filesystem \<Rightarrow> nat \<Rightarrow> nat \<Rightarrow> stream \<Rightarrow> 'a table
     \<Rightarrow> error option \<times> stream \<times> 'a table" where
  "read_chunks c M fs n i f tbl =
     (if i < n then
        (let num = min chunk_N (n - i)
         in case fread (T_disk_size c) num f fs of
              (buf, got, f') \<Rightarrow>
                if got \<noteq> num then (Some (Runtime_error ''fread() failed''), f', tbl)
                else if M = 0 then (Some (Undefined ''division by zero''), f', tbl)
                else read_chunks c M fs n (i + num) f' (group_chunk c M buf num tbl))
      else (None, f, tbl))"
  by pat_completeness auto
termination
  by (relation "measure (\<lambda>(c, M, fs, n, i, f, tbl). n - i)") (auto simp: chunk_N_def)

declare read_chunks.simps [simp del]

text \<open>
  \<^verbatim>\<open>read_bucket(index, out, M)\<close>. \<open>file\<close> is a reference to \<^verbatim>\<open>bucket.file\<close>, so a failed
  \<^verbatim>\<open>fopen\<close> leaves the bucket with a null handle. \<open>out\<close> is forwarded only when the
  function returns. The caller passes an index below \<^verbatim>\<open>buckets.size()\<close>. The calls of
  \<^verbatim>\<open>reserve\<close> do not change what the containers hold; running out of memory is not
  part of the model.
\<close>

definition read_bucket ::
  "'a entry_ops \<Rightarrow> nat \<Rightarrow> 64 word \<Rightarrow> world \<Rightarrow> error option \<times> world \<times> 'a list list" where
  "read_bucket c index M w =
     (case w of (d, fs) \<Rightarrow>
        (let bucket = buckets d ! index;
             fs0 = (case file bucket of None \<Rightarrow> fs | Some f \<Rightarrow> snd (fclose (Some f) fs))
         in case fopen (file_name bucket) ''rb'' fs0 of
              (None, fs') \<Rightarrow>
                (Some (Runtime_error ''fopen() failed''),
                 (d\<lparr>buckets := (buckets d)[index := bucket\<lparr>file := None\<rparr>]\<rparr>, fs'), [])
            | (Some f, fs') \<Rightarrow>
                (case read_chunks c M fs' (num_entries bucket) 0 f [] of
                   (Some e, f', table) \<Rightarrow>
                     (Some e, (d\<lparr>buckets := (buckets d)[index := bucket\<lparr>file := Some f'\<rparr>]\<rparr>, fs'), [])
                 | (None, f', table) \<Rightarrow>
                     (None, (d\<lparr>buckets := (buckets d)[index := bucket\<lparr>file := Some f'\<rparr>]\<rparr>, fs'),
                      map snd (fold (\<lambda>(k, blk). map_emplace k blk) table [])))))"

subsection \<open>Sort stage: \<^verbatim>\<open>sort_bucket\<close> and \<^verbatim>\<open>sort_block\<close>\<close>

text \<open>\<^verbatim>\<open>std::sort\<close> on the block, then \<^verbatim>\<open>out = std::move(input)\<close>.\<close>

definition sort_block :: "'a entry_ops \<Rightarrow> 'a output_t \<Rightarrow> 'a output_t" where
  "sort_block c input = input\<lparr>block := std_sort c (block input)\<rparr>"

text \<open>
  Modelled from the spec: \<^verbatim>\<open>ThreadPool<T, S>::take\<close> and \<^verbatim>\<open>wait\<close> of
  \<^verbatim>\<open>chia/ThreadPool.h\<close>, which is not among the sources. The spec gives the pool as
  "submit work item, worker computes result, forward result to next stage preserving
  submission order": the next stage takes the result of the work function for each
  submitted item, in the order of submission.
\<close>

definition pool_forward :: "('a \<Rightarrow> 'b) \<Rightarrow> 'a list \<Rightarrow> 'b list" where
  "pool_forward work items = map work items"

text \<open>
  \<open>sort_bucket\<close> submits one unit per sub-block to a pool whose work function is
  \<open>sort_block\<close> and whose next stage is the consumer \<^verbatim>\<open>output\<close>; its result here is what
  the consumer takes.
\<close>

definition sort_bucket :: "'a entry_ops \<Rightarrow> 'a list list \<Rightarrow> 'a output_t list" where
  "sort_bucket c input =
     pool_forward (sort_block c)
       (map (\<lambda>i. \<lparr>is_begin = (i = 0), is_end = (i + 1 = length input), block = input ! i\<rparr>)
            [0..<length input])"

subsection \<open>Orchestration: \<^verbatim>\<open>read\<close>\<close>

text \<open>
  Modelled from the spec: the pipeline \<^verbatim>\<open>read\<close> builds from \<^verbatim>\<open>ThreadPool\<close> and
  \<^verbatim>\<open>Thread\<close> (\<^verbatim>\<open>chia/ThreadPool.h\<close>, \<^verbatim>\<open>chia/Thread.h\<close>, not among the sources). The
  read pool runs \<open>read_bucket\<close> on each submitted bucket index and forwards the results,
  in the order of submission, to the single sort thread, which runs \<open>sort_bucket\<close> on
  each. An exception in a worker ends the run. The result is the exception (if any), the
  state left behind and the units the consumer \<^verbatim>\<open>output\<close> has taken, in the order it
  took them.
\<close>

fun read_buckets ::
  "'a entry_ops \<Rightarrow> 64 word \<Rightarrow> nat list \<Rightarrow> world \<Rightarrow> error option \<times> world \<times> 'a output_t list" where
  "read_buckets c M [] w = (None, w, [])"
| "read_buckets c M (i # rest) w =
     (case read_bucket c i M w of
        (Some e, w', out) \<Rightarrow> (Some e, w', [])
      | (None, w', out) \<Rightarrow>
          (case read_buckets c M rest w' of
             (e, w'', units) \<Rightarrow> (e, w'', sort_bucket c out @ units)))"

text \<open>\<^verbatim>\<open>read\<close> submits the bucket indices \<open>0, 1, ...\<close> in this order.\<close>

definition read :: "'a entry_ops \<Rightarrow> 64 word \<Rightarrow> world \<Rightarrow> error option \<times> world \<times> 'a output_t list" where
  "read c M w = read_buckets c M [0..<length (buckets (fst w))] w"

section \<open>Notions used in the proofs\<close>

text \<open>
  The grouping table is well formed when every key occurs once and every block is
  non-empty and holds only entries of that partition \<open>key / M\<close>.
\<close>

definition table_inv :: "'a entry_ops \<Rightarrow> 64 word \<Rightarrow> 'a table \<Rightarrow> bool" where
  "table_inv c M tbl \<longleftrightarrow>
     distinct (map fst tbl) \<and>
     (\<forall>p \<in> set tbl. snd p \<noteq> [] \<and> (\<forall>e \<in> set (snd p). Key c e div M = fst p))"

text \<open>The sub-blocks \<open>read_bucket\<close> materialises from a table: through the ordered map.\<close>

definition blocks_of :: "'a table \<Rightarrow> 'a list list" where
  "blocks_of tbl = map snd (fold (\<lambda>(k, blk). map_emplace k blk) tbl [])"

text \<open>The table after the entries \<open>es\<close> have been pushed, one after the other.\<close>

definition group_entries :: "'a entry_ops \<Rightarrow> 64 word \<Rightarrow> 'a table \<Rightarrow> 'a list \<Rightarrow> 'a table" where
  "group_entries c M tbl es = foldl (\<lambda>t e. table_push (Key c e div M) e t) tbl es"

text \<open>
  What \<open>read_bucket\<close> yields for a bucket, once the old handle is closed, depends on the
  bucket only through its file name and its record count, and on the file system.
\<close>

definition bucket_key :: "bucket_t \<Rightarrow> string \<times> nat" where
  "bucket_key b = (file_name b, num_entries b)"

definition bucket_blocks ::
  "'a entry_ops \<Rightarrow> 64 word \<Rightarrow> filesystem \<Rightarrow> string \<times> nat \<Rightarrow> error option \<times> 'a list list" where
  "bucket_blocks c M fs b =
     (case fopen (fst b) ''rb'' fs of
        (None, fs') \<Rightarrow> (Some (Runtime_error ''fopen() failed''), [])
      | (Some f, fs') \<Rightarrow>
          (case read_chunks c M fs' (snd b) 0 f [] of
             (Some e, f', tbl) \<Rightarrow> (Some e, [])
           | (None, f', tbl) \<Rightarrow> (None, blocks_of tbl)))"

text \<open>The units \<open>read\<close> forwards, bucket after bucket, up to the first exception.\<close>

fun run_units ::
  "'a entry_ops \<Rightarrow> 64 word \<Rightarrow> filesystem \<Rightarrow> (string \<times> nat) list \<Rightarrow> error option \<times> 'a output_t list" where
  "run_units c M fs [] = (None, [])"
| "run_units c M fs (b # rest) =
     (case bucket_blocks c M fs b of
        (Some e, out) \<Rightarrow> (Some e, [])
      | (None, out) \<Rightarrow>
          (case run_units c M fs rest of (e, units) \<Rightarrow> (e, sort_bucket c out @ units)))"

text \<open>The bucket the constructor makes for a file name.\<close>

definition fresh_bucket :: "string \<Rightarrow> nat \<Rightarrow> bucket_t" where
  "fresh_bucket name cap =
     \<lparr>file = Some (Writer name []), file_name = name, offset = 0, num_entries = 0,
      buffer = replicate cap 0\<rparr>"

text \<open>
  The entries of a sequence that \<open>add\<close> routes to bucket \<open>i\<close>, in the order of the
  sequence.
\<close>

definition routed :: "'a entry_ops \<Rightarrow> DiskSort \<Rightarrow> 'a list \<Rightarrow> nat \<Rightarrow> 'a list" where
  "routed c d es i = filter (\<lambda>e. bucket_index c d e = Some i) es"

text \<open>
  The bytes a writer has taken so far: those in its file followed by those still in its
  buffer.
\<close>

definition stream_bytes :: "filesystem \<Rightarrow> stream option \<Rightarrow> byte list option" where
  "stream_bytes fs fl =
     (case fl of
        Some (Writer name pending) \<Rightarrow>
          (case files fs name of None \<Rightarrow> None | Some data \<Rightarrow> Some (data @ pending))
      | _ \<Rightarrow> None)"

definition stream_name :: "stream option \<Rightarrow> string option" where
  "stream_name fl = (case fl of Some (Writer name pending) \<Rightarrow> Some name | _ \<Rightarrow> None)"

text \<open>
  During ingestion, a bucket that has taken the entries \<open>es\<close> holds a writer on its own
  file, and the bytes of that writer followed by the filled part of the bucket's buffer
  are the serialisation of \<open>es\<close>, entry after entry. In a world that has taken \<open>es\<close>, the
  buckets have different file names and each bucket stands so for the entries routed to
  it.
\<close>

definition bucket_inv :: "'a entry_ops \<Rightarrow> filesystem \<Rightarrow> bucket_t \<Rightarrow> 'a list \<Rightarrow> bool" where
  "bucket_inv c fs b es \<longleftrightarrow>
     stream_name (file b) = Some (file_name b) \<and> offset b \<le> length (buffer b) \<and>
     num_entries b = length es \<and>
     (case stream_bytes fs (file b) of
        None \<Rightarrow> False
      | Some data \<Rightarrow> data @ take (offset b) (buffer b) = concat (map (T_write c) es))"

definition world_inv :: "'a entry_ops \<Rightarrow> world \<Rightarrow> 'a list \<Rightarrow> bool" where
  "world_inv c w es \<longleftrightarrow>
     distinct (map file_name (buckets (fst w))) \<and>
     (\<forall>i < length (buckets (fst w)).
        bucket_inv c (snd w) (buckets (fst w) ! i) (routed c (fst w) es i))"

text \<open>
  A bucket is settled when closing its handle writes nothing: it holds no writer, or the
  writer's buffer is empty, or the device is full, or the file is gone.
\<close>

definition settled :: "filesystem \<Rightarrow> bucket_t \<Rightarrow> bool" where
  "settled fs b \<longleftrightarrow>
     (case file b of
        Some (Writer name pending) \<Rightarrow> pending = [] \<or> free fs = 0 \<or> files fs name = None
      | _ \<Rightarrow> True)"

section \<open>Two small instances\<close>

text \<open>
  One-byte entries whose key is the byte, sorted by insertion; keys of 4 bits, 2 buckets
  (keys 0 to 7 and 8 to 15) and a write buffer of 2 bytes. The first file system is empty,
  has room for 64 bytes and gives streams a buffer of 4 bytes.
\<close>

definition example_ops :: "byte entry_ops" where
  "example_ops =
     \<lparr>T_disk_size = 1, T_write = (\<lambda>e. [e]), T_read = hd, Key = ucast,
      std_sort = sort_key (ucast :: byte \<Rightarrow> 64 word)\<rparr>"

definition example_fs :: filesystem where
  "example_fs = \<lparr>files = Map.empty, free = 64, denied = [], bufsiz = 4\<rparr>"

definition example_world :: world where
  "example_world =
     (projr (fst (construct 4 1 1 ''t'' 2 example_fs)), snd (construct 4 1 1 ''t'' 2 example_fs))"

definition example_entries :: "byte list" where
  "example_entries = [5, 9, 12, 6, 3, 7, 5]"

definition example_finished :: world where
  "example_finished = snd (finish (snd (add_all example_ops example_entries example_world)))"

text \<open>
  The second file system has room for 3 bytes only and gives streams a buffer of 8 bytes;
  five entries go to bucket 0.
\<close>

definition small_fs :: filesystem where
  "small_fs = \<lparr>files = Map.empty, free = 3, denied = [], bufsiz = 8\<rparr>"

definition small_world :: world where
  "small_world =
     (projr (fst (construct 4 1 1 ''t'' 2 small_fs)), snd (construct 4 1 1 ''t'' 2 small_fs))"

definition small_entries :: "byte list" where
  "small_entries = [5, 6, 3, 7, 5]"

definition small_added :: world where
  "small_added = snd (add_all example_ops small_entries small_world)"

section \<open>Properties\<close>

lemmas example_defs =
  example_ops_def example_fs_def example_world_def example_entries_def example_finished_def

lemmas eval_defs =
  construct_def fopen_def bucket_file_name_def to_string.simps digit_def upt_conv_Cons
  file_size_def add_def bucket_index_def flush_def fwrite_def transmit_def store_def
  finish_def fflush_def read_def read_bucket_def read_chunks.simps fread_def chunk_N_def
  group_chunk_def sort_bucket_def pool_forward_def sort_block_def fclose_def clear_def
  remove_file_def Let_def

subsection \<open>Begin and end markers\<close>

text \<open>
  C3: for a bucket whose read/group stage yields \<open>n \<ge> 1\<close> sub-blocks, the sort stage emits
  \<open>n\<close> units; \<open>is_begin\<close> is true on exactly the unit of index 0 and \<open>is_end\<close> on exactly
  the unit of index \<open>n - 1\<close> (so a single unit carries both), and each unit holds what
  \<^verbatim>\<open>std::sort\<close> makes of its sub-block.
\<close>

theorem sort_bucket_flags:
  assumes "input \<noteq> []"
  shows "length (sort_bucket c input) = length input \<and>
    (\<forall>i < length input.
       is_begin (sort_bucket c input ! i) = (i = 0) \<and>
       is_end (sort_bucket c input ! i) = (i = length input - 1) \<and>
       block (sort_bucket c input ! i) = std_sort c (input ! i))"
proof -
  have "0 < length input" using assms by simp
  then have "\<And>i. i < length input \<Longrightarrow> (i + 1 = length input) = (i = length input - 1)"
    by arith
  then show ?thesis by (simp add: sort_bucket_def pool_forward_def sort_block_def)
qed

theorem sort_bucket_flags_witness:
  "map (\<lambda>u. (is_begin u, is_end u)) (sort_bucket example_ops [[3, 1], [7], [9, 8]])
     = [(True, False), (False, False), (False, True)]
   \<and> map (\<lambda>u. (is_begin u, is_end u)) (sort_bucket example_ops [[3, 1]]) = [(True, True)]"
proof -
  have a: "[[3, 1], [7], [9, 8 :: byte]] \<noteq> []" and b: "[[3, 1 :: byte]] \<noteq> []" by simp_all
  show ?thesis
    using sort_bucket_flags [OF a, of example_ops] sort_bucket_flags [OF b, of example_ops]
    by (simp add: sort_bucket_def pool_forward_def sort_block_def upt_conv_Cons)
qed

subsection \<open>Rejected calls of \<^verbatim>\<open>add\<close>\<close>

lemma is_finished_read_only:
  "is_finished (fst w) \<Longrightarrow> add c e w = (Some (Logic_error ''read only''), w)"
  by (cases w) (simp add: add_def)

lemma finish_is_finished:
  "fst (finish w) = None \<Longrightarrow> is_finished (fst (snd (finish w)))"
  by (cases w) (auto simp: finish_def split: prod.splits option.splits)

text \<open>
  C6: once \<open>finish\<close> has returned, \<open>add\<close> of any entry throws the logic error
  "read only" and leaves the object and the file system as they were: no buffer, record
  count or file changes.
\<close>

theorem add_after_finish:
  assumes "fst (finish w) = None"
  shows "add c e (snd (finish w)) = (Some (Logic_error ''read only''), snd (finish w))"
  using assms by (intro is_finished_read_only finish_is_finished)

theorem add_after_finish_witness:
  "fst (finish example_world) = None \<and>
   add example_ops 5 (snd (finish example_world))
     = (Some (Logic_error ''read only''), snd (finish example_world))"
proof -
  have h: "fst (finish example_world) = None" by (simp add: example_defs eval_defs)
  show ?thesis using h add_after_finish [OF h] by simp
qed

text \<open>
  C7: on an object that still takes entries (not finished, with its \<open>2 ^ log_num_buckets\<close>
  buckets), \<open>add\<close> of an entry whose bucket index \<open>key >> (key_size - log_num_buckets)\<close>
  is not below \<open>2 ^ log_num_buckets\<close> throws the logic error "index out of range" and
  changes nothing: no bucket's buffer, offset or record count, and no file.
\<close>

theorem add_out_of_range:
  assumes "\<not> is_finished d"
    and "length (buckets d) = 2 ^ nat (log_num_buckets d)"
    and "bucket_index c d e = Some index"
    and "\<not> index < 2 ^ nat (log_num_buckets d)"
  shows "add c e (d, fs) = (Some (Logic_error ''index out of range''), (d, fs))"
  using assms by (simp add: add_def)

theorem add_out_of_range_witness:
  "add example_ops 200 example_world = (Some (Logic_error ''index out of range''), example_world)"
proof -
  have a: "length (buckets (fst example_world)) = 2 ^ nat (log_num_buckets (fst example_world))"
    by (simp add: example_defs eval_defs)
  have b: "bucket_index example_ops (fst example_world) 200 = Some 25"
    by (simp add: example_defs eval_defs)
  have c: "\<not> (25::nat) < 2 ^ nat (log_num_buckets (fst example_world))"
    by (simp add: example_defs eval_defs)
  have d: "\<not> is_finished (fst example_world)"
    by (simp add: example_defs eval_defs)
  show ?thesis
    using add_out_of_range [OF d a b c, of "snd example_world"] by simp
qed

subsection \<open>Teardown\<close>

lemma clear_buckets_null:
  "bs \<noteq> [] \<Longrightarrow> file (hd bs) = None \<Longrightarrow>
   clear_buckets bs fs = (Some (Undefined ''fclose(nullptr)''), bs, fs)"
  by (cases bs) (simp_all add: fclose_def)

lemma clear_buckets_hd:
  "bs \<noteq> [] \<Longrightarrow> clear_buckets bs fs = (e, bs', fs') \<Longrightarrow> bs' \<noteq> [] \<and> file (hd bs') = None"
  by (cases bs) (auto simp: fclose_def split: option.splits prod.splits stream.splits)

text \<open>
  Whatever the first \<open>clear\<close> did, a second one reaches \<^verbatim>\<open>fclose(bucket.file)\<close> with
  the null handle the first one stored in bucket 0.
\<close>

lemma clear_twice:
  assumes "buckets d \<noteq> []"
  shows "fst (clear (snd (clear (d, fs)))) = Some (Undefined ''fclose(nullptr)'')"
proof -
  obtain e bs' fs' where c: "clear_buckets (buckets d) fs = (e, bs', fs')"
    by (cases "clear_buckets (buckets d) fs") auto
  from clear_buckets_hd [OF assms c] have "bs' \<noteq> []" "file (hd bs') = None" by simp_all
  then show ?thesis by (simp add: clear_def c clear_buckets_null)
qed

lemma fclose_open: "fl \<noteq> None \<Longrightarrow> fst (fclose fl fs) = None"
  by (auto simp: fclose_def split: option.splits stream.splits)

lemma transmit_gone: "files fs n = None \<Longrightarrow> files (snd (transmit name bytes fs)) n = None"
  by (auto simp: transmit_def Let_def split: option.splits)

lemma fclose_gone: "files fs n = None \<Longrightarrow> files (snd (fclose fl fs)) n = None"
  by (auto simp: fclose_def transmit_gone split: option.splits stream.splits)

lemma remove_file_gone: "files (remove_file name fs) name = None"
  by (simp add: remove_file_def)

lemma remove_file_keeps_gone: "files fs n = None \<Longrightarrow> files (remove_file name fs) n = None"
  by (simp add: remove_file_def)

lemma clear_buckets_keeps_gone:
  "files fs n = None \<Longrightarrow> files (snd (snd (clear_buckets bs fs))) n = None"
proof (induction bs arbitrary: fs)
  case Nil
  then show ?case by simp
next
  case (Cons b bs)
  obtain r fs1 where fc: "fclose (file b) fs = (r, fs1)" by (cases "fclose (file b) fs")
  have g1: "files fs1 n = None" using fclose_gone [OF Cons.prems, of "file b"] fc by simp
  show ?case
  proof (cases r)
    case (Some e)
    then show ?thesis using fc g1 by simp
  next
    case None
    have "files (remove_file (file_name b) fs1) n = None" by (rule remove_file_keeps_gone [OF g1])
    from Cons.IH [OF this] show ?thesis using fc None
      by (cases "clear_buckets bs (remove_file (file_name b) fs1)") simp
  qed
qed

lemma clear_buckets_ok:
  assumes "\<forall>b \<in> set bs. file b \<noteq> None"
  shows "fst (clear_buckets bs fs) = None
    \<and> fst (snd (clear_buckets bs fs)) = map (\<lambda>b. b\<lparr>file := None\<rparr>) bs
    \<and> (\<forall>b \<in> set bs. files (snd (snd (clear_buckets bs fs))) (file_name b) = None)"
  using assms
proof (induction bs arbitrary: fs)
  case Nil
  then show ?case by simp
next
  case (Cons b bs)
  obtain r fs1 where fc: "fclose (file b) fs = (r, fs1)" by (cases "fclose (file b) fs")
  have r: "r = None" using fclose_open [of "file b" fs] Cons.prems fc by simp
  let ?fs2 = "remove_file (file_name b) fs1"
  have ih: "fst (clear_buckets bs ?fs2) = None"
    "fst (snd (clear_buckets bs ?fs2)) = map (\<lambda>b. b\<lparr>file := None\<rparr>) bs"
    "\<forall>x \<in> set bs. files (snd (snd (clear_buckets bs ?fs2))) (file_name x) = None"
    using Cons.IH [of ?fs2] Cons.prems by simp_all
  have here: "files (snd (snd (clear_buckets bs ?fs2))) (file_name b) = None"
    by (rule clear_buckets_keeps_gone) (rule remove_file_gone)
  show ?case using fc r ih here by (cases "clear_buckets bs ?fs2") simp
qed

lemma fflush_open: "fl \<noteq> None \<Longrightarrow> fst (snd (fflush fl fs)) \<noteq> None"
  by (auto simp: fflush_def split: option.splits stream.splits prod.splits)

lemma flush_static:
  "flush b fs = (r, b1, fs1) \<Longrightarrow>
     file_name b1 = file_name b \<and> num_entries b1 = num_entries b \<and> buffer b1 = buffer b"
  by (auto simp: flush_def split: option.splits if_splits prod.splits)

lemma flush_open: "flush b fs = (None, b1, fs1) \<Longrightarrow> file b1 \<noteq> None"
  by (auto simp: flush_def split: option.splits if_splits prod.splits)

lemma flush_buckets_static:
  "flush_buckets bs fs = (r, bs', fs') \<Longrightarrow>
     map file_name bs' = map file_name bs \<and> map num_entries bs' = map num_entries bs"
proof (induction bs arbitrary: fs r bs' fs')
  case Nil
  then show ?case by simp
next
  case (Cons b bs)
  obtain q b1 fs1 where fl: "flush b fs = (q, b1, fs1)" by (cases "flush b fs") auto
  note st = flush_static [OF fl]
  show ?case
  proof (cases q)
    case (Some e)
    then show ?thesis using Cons.prems fl st by auto
  next
    case None
    obtain ok f2 fs2 where ff: "fflush (file b1) fs1 = (ok, f2, fs2)"
      by (cases "fflush (file b1) fs1") auto
    obtain q3 bs3 fs3 where fb: "flush_buckets bs fs2 = (q3, bs3, fs3)"
      by (cases "flush_buckets bs fs2") auto
    show ?thesis using Cons.prems fl None ff fb st Cons.IH [OF fb] by auto
  qed
qed

lemma flush_buckets_files:
  "flush_buckets bs fs = (None, bs', fs') \<Longrightarrow> \<forall>b \<in> set bs'. file b \<noteq> None"
proof (induction bs arbitrary: fs bs' fs')
  case Nil
  then show ?case by simp
next
  case (Cons b bs)
  obtain q b1 fs1 where fl: "flush b fs = (q, b1, fs1)" by (cases "flush b fs") auto
  have q: "q = None" using Cons.prems fl by (cases q) simp_all
  obtain ok f2 fs2 where ff: "fflush (file b1) fs1 = (ok, f2, fs2)"
    by (cases "fflush (file b1) fs1") auto
  obtain q3 bs3 fs3 where fb: "flush_buckets bs fs2 = (q3, bs3, fs3)"
    by (cases "flush_buckets bs fs2") auto
  have res: "q3 = None" "bs' = b1\<lparr>file := f2\<rparr> # bs3" using Cons.prems fl q ff fb by simp_all
  have "f2 \<noteq> None" using fflush_open [OF flush_open [OF fl [unfolded q]], of fs1] ff by simp
  then show ?case using Cons.IH [OF fb [unfolded res(1)]] res by simp
qed

text \<open>
  After a \<open>finish\<close> that returned, every bucket holds an open handle, so the first
  \<open>clear\<close> returns, leaves every handle null and no bucket file behind.
\<close>

lemma clear_after_finish:
  assumes "fst (finish w) = None"
  shows "fst (clear (snd (finish w))) = None
    \<and> (\<forall>b \<in> set (buckets (fst (snd (clear (snd (finish w)))))). file b = None)
    \<and> (\<forall>b \<in> set (buckets (fst w)).
          files (snd (snd (clear (snd (finish w))))) (file_name b) = None)"
proof -
  obtain d fs where w: "w = (d, fs)" by (cases w)
  obtain r bs fs1 where fb: "flush_buckets (buckets d) fs = (r, bs, fs1)"
    by (cases "flush_buckets (buckets d) fs") auto
  have r: "r = None" using assms fb by (cases r) (simp_all add: finish_def w)
  have fin: "snd (finish (d, fs)) = (d\<lparr>buckets := bs, is_finished := True\<rparr>, fs1)"
    using fb r by (simp add: finish_def)
  note open_all = flush_buckets_files [OF fb [unfolded r]]
  note cb = clear_buckets_ok [OF open_all, of fs1]
  have names: "file_name ` set bs = file_name ` set (buckets d)"
    using flush_buckets_static [OF fb] by (metis set_map)
  have gone: "files (snd (snd (clear_buckets bs fs1))) (file_name b) = None"
    if "b \<in> set (buckets d)" for b
  proof -
    from that names obtain b' where "b' \<in> set bs" "file_name b' = file_name b"
      by (metis imageE imageI)
    then show ?thesis using cb by auto
  qed
  show ?thesis using cb gone by (cases "clear_buckets bs fs1") (simp add: fin clear_def w)
qed

text \<open>
  C8: \<open>clear\<close> after \<open>finish\<close> closes every handle and removes every bucket file, and a
  second \<open>clear\<close> is safe. On the code the first call returns, and the second call passes
  a null handle to \<^verbatim>\<open>fclose\<close>.
\<close>

theorem clear_twice_fails:
  "fst (clear example_finished) = None \<and>
   fst (clear (snd (clear example_finished))) = Some (Undefined ''fclose(nullptr)'')"
  by (simp add: example_defs eval_defs)

subsection \<open>Empty buckets\<close>

lemma read_chunks_zero: "read_chunks c M fs 0 i f tbl = (None, f, tbl)"
  by (simp add: read_chunks.simps)

text \<open>
  C9: for a bucket with no entries, the read/group stage yields no sub-block, the sort
  stage emits no unit for it, and \<open>read\<close> goes on to the next bucket with nothing
  forwarded to the consumer: the units forwarded from this bucket on are those of the
  buckets after it.
\<close>

theorem empty_bucket_no_units:
  assumes "num_entries (buckets d ! i) = 0"
  shows "snd (snd (read_bucket c i M (d, fs))) = []
    \<and> sort_bucket c (snd (snd (read_bucket c i M (d, fs)))) = []
    \<and> snd (snd (read_buckets c M (i # rest) (d, fs))) =
        (if fst (read_bucket c i M (d, fs)) = None
         then snd (snd (read_buckets c M rest (fst (snd (read_bucket c i M (d, fs))))))
         else [])"
proof -
  have a: "snd (snd (read_bucket c i M (d, fs))) = []"
    using assms
    by (simp add: read_bucket_def read_chunks_zero Let_def split: prod.splits option.splits)
  have b: "sort_bucket c ([] :: 'a list list) = []"
    by (simp add: sort_bucket_def pool_forward_def)
  show ?thesis
    using a b by (cases "read_bucket c i M (d, fs)") (auto split: option.splits prod.splits)
qed

theorem empty_bucket_no_units_witness:
  "num_entries (buckets (fst example_world) ! 0) = 0 \<and>
   snd (snd (read example_ops 4 example_world)) = []"
proof -
  have h: "num_entries (buckets (fst example_world) ! 0) = 0"
    by (simp add: example_defs eval_defs)
  have r: "read example_ops 4 example_world
    = read_buckets example_ops 4 [0, 1] (fst example_world, snd example_world)"
    by (simp add: example_defs eval_defs)
  have n: "snd (snd (read_buckets example_ops 4 [1]
      (fst (snd (read_bucket example_ops 0 4 (fst example_world, snd example_world)))))) = []"
    by (simp add: example_defs eval_defs)
  show ?thesis
    using h empty_bucket_no_units [OF h, of example_ops 4 "snd example_world" "[1]"] r n
    by (simp split: if_splits)
qed


subsection \<open>Flushing before the buffer overflows\<close>

lemma add_ok_index:
  assumes "add c e (d, fs) = (None, (d', fs'))"
  shows "\<exists>i. bucket_index c d e = Some i \<and> i < length (buckets d) \<and> \<not> is_finished d"
  using assms unfolding add_def
  by (simp split: if_splits option.splits)

text \<open>The steps of an \<open>add\<close> that returns.\<close>

lemma add_step:
  assumes ok: "add c e (d, fs) = (None, (d', fs'))"
  obtains i b1 where "bucket_index c d e = Some i" and "i < length (buckets d)"
    and "\<not> is_finished d"
    and "(if length (buffer (buckets d ! i)) < offset (buckets d ! i) + T_disk_size c
          then flush (buckets d ! i) fs else (None, buckets d ! i, fs)) = (None, b1, fs')"
    and "offset b1 + length (T_write c e) \<le> length (buffer b1)"
    and "buckets d' = (buckets d)[i :=
               b1\<lparr>buffer := store (buffer b1) (offset b1) (T_write c e),
                  offset := offset b1 + length (T_write c e),
                  num_entries := num_entries b1 + 1\<rparr>]"
    and "key_size d' = key_size d" and "log_num_buckets d' = log_num_buckets d"
    and "is_finished d' = is_finished d"
proof -
  from add_ok_index [OF ok] obtain i where idx: "bucket_index c d e = Some i"
    and il: "i < length (buckets d)" and nf: "\<not> is_finished d"
    by blast
  let ?b = "buckets d ! i"
  let ?step = "if length (buffer ?b) < offset ?b + T_disk_size c then flush ?b fs else (None, ?b, fs)"
  have il': "\<not> length (buckets d) \<le> i" using il by simp
  obtain r b1 fs1 where step: "?step = (r, b1, fs1)" by (cases ?step) auto
  have eq: "add c e (d, fs) =
     (case r of
        Some er \<Rightarrow> (Some er, (d\<lparr>buckets := (buckets d)[i := b1]\<rparr>, fs1))
      | None \<Rightarrow>
          if offset b1 + length (T_write c e) > length (buffer b1)
          then (Some (Undefined ''buffer overrun''), (d\<lparr>buckets := (buckets d)[i := b1]\<rparr>, fs1))
          else (None,
                (d\<lparr>buckets := (buckets d)[i :=
                     b1\<lparr>buffer := store (buffer b1) (offset b1) (T_write c e),
                        offset := offset b1 + length (T_write c e),
                        num_entries := num_entries b1 + 1\<rparr>]\<rparr>, fs1)))"
    using step by (simp add: add_def idx il' nf Let_def split: option.splits)
  have r: "r = None" using ok eq by (cases r) simp_all
  have fit: "offset b1 + length (T_write c e) \<le> length (buffer b1)"
    using ok eq r by (simp split: if_splits)
  have d': "d' = d\<lparr>buckets := (buckets d)[i :=
               b1\<lparr>buffer := store (buffer b1) (offset b1) (T_write c e),
                  offset := offset b1 + length (T_write c e),
                  num_entries := num_entries b1 + 1\<rparr>]\<rparr>"
    and fs': "fs' = fs1"
    using ok eq r fit by simp_all
  show thesis
    by (rule that [OF idx il nf _ fit]) (use step r d' fs' in simp_all)
qed

text \<open>
  A \<open>flush\<close> that returns has handed the filled part of the buffer to the stream: the bytes
  of the stream grow by exactly these. Files of other names are as before, the device has
  no more room than before and no file appears or disappears.
\<close>

lemma flush_ok:
  assumes fl: "flush b fs = (None, b1, fs1)"
  shows "offset b1 = 0" and "stream_name (file b1) = stream_name (file b)"
    and "file_name b1 = file_name b" and "num_entries b1 = num_entries b"
    and "buffer b1 = buffer b"
    and "\<And>old. stream_bytes fs (file b) = Some old \<Longrightarrow>
           stream_bytes fs1 (file b1) = Some (old @ take (offset b) (buffer b))"
    and "\<And>n. stream_name (file b) \<noteq> Some n \<Longrightarrow> files fs1 n = files fs n"
    and "free fs1 \<le> free fs" and "bufsiz fs1 = bufsiz fs"
    and "\<And>n. (files fs1 n = None) = (files fs n = None)"
proof -
  obtain f where f: "file b = Some f" using fl by (cases "file b") (simp_all add: flush_def)
  obtain n f1 fs2 where fw: "fwrite (take (offset b) (buffer b)) f fs = (n, f1, fs2)"
    by (cases "fwrite (take (offset b) (buffer b)) f fs") auto
  have n: "n = offset b" and b1: "b1 = b\<lparr>file := Some f1, offset := 0\<rparr>" and fs1: "fs1 = fs2"
    using fl f fw by (auto simp: flush_def split: if_splits)
  show "offset b1 = 0" "file_name b1 = file_name b" "num_entries b1 = num_entries b"
    "buffer b1 = buffer b"
    using b1 by simp_all
  show "stream_name (file b1) = stream_name (file b)"
    using fw f b1
    by (auto simp: fwrite_def stream_name_def split: stream.splits if_splits prod.splits)
  show "stream_bytes fs1 (file b1) = Some (old @ take (offset b) (buffer b))"
    if "stream_bytes fs (file b) = Some old" for old
    using that fw f b1 fs1 n
    by (auto simp: fwrite_def transmit_def stream_bytes_def Let_def
             split: stream.splits if_splits prod.splits option.splits)
  show "files fs1 m = files fs m" if "stream_name (file b) \<noteq> Some m" for m
    using that fw f fs1
    by (auto simp: fwrite_def transmit_def stream_name_def Let_def
             split: stream.splits if_splits prod.splits option.splits)
  show "free fs1 \<le> free fs" "bufsiz fs1 = bufsiz fs"
    using fw fs1
    by (auto simp: fwrite_def transmit_def Let_def
             split: stream.splits if_splits prod.splits option.splits)
  show "(files fs1 m = None) = (files fs m = None)" for m
    using fw fs1
    by (auto simp: fwrite_def transmit_def Let_def
             split: stream.splits if_splits prod.splits option.splits)
qed

lemma store_take:
  "off + length bytes \<le> length buf \<Longrightarrow> take (off + length bytes) (store buf off bytes) = take off buf @ bytes"
  by (simp add: store_def)

lemma store_length:
  "off + length bytes \<le> length buf \<Longrightarrow> length (store buf off bytes) = length buf"
  by (simp add: store_def)

text \<open>
  C4: a successful \<open>add\<close> of an entry that would not fit behind the fill offset first
  flushes the bucket's buffer (\<open>flush\<close> returns: the stream has taken the bytes up to the
  offset, and the offset is reset to zero) and then serialises at offset zero; otherwise
  it serialises at the offset and leaves stream and file system alone. Either way the new
  offset is within the buffer, and the record count grows by one. The bytes of the stream
  are those of the file followed by the ones \<^verbatim>\<open>fwrite\<close> has accepted and the C library
  still holds.
\<close>

theorem add_flushes_before_overflow:
  assumes ok: "add c e (d, fs) = (None, (d', fs'))"
    and idx: "bucket_index c d e = Some i"
    and len: "length (T_write c e) = T_disk_size c"
  shows "(if length (buffer (buckets d ! i)) < offset (buckets d ! i) + T_disk_size c
          then fst (flush (buckets d ! i) fs) = None
             \<and> snd (snd (flush (buckets d ! i) fs)) = fs'
             \<and> offset (fst (snd (flush (buckets d ! i) fs))) = 0
             \<and> (\<forall>old. stream_bytes fs (file (buckets d ! i)) = Some old \<longrightarrow>
                   stream_bytes fs' (file (buckets d' ! i))
                     = Some (old @ take (offset (buckets d ! i)) (buffer (buckets d ! i))))
             \<and> offset (buckets d' ! i) = T_disk_size c
          else fs' = fs \<and> file (buckets d' ! i) = file (buckets d ! i)
             \<and> offset (buckets d' ! i) = offset (buckets d ! i) + T_disk_size c)
       \<and> offset (buckets d' ! i) \<le> length (buffer (buckets d' ! i))
       \<and> length (buffer (buckets d' ! i)) = length (buffer (buckets d ! i))
       \<and> num_entries (buckets d' ! i) = num_entries (buckets d ! i) + 1"
proof -
  from ok obtain j b1 where j: "bucket_index c d e = Some j" and il: "j < length (buckets d)"
    and step: "(if length (buffer (buckets d ! j)) < offset (buckets d ! j) + T_disk_size c
          then flush (buckets d ! j) fs else (None, buckets d ! j, fs)) = (None, b1, fs')"
    and fit: "offset b1 + length (T_write c e) \<le> length (buffer b1)"
    and bs': "buckets d' = (buckets d)[j :=
               b1\<lparr>buffer := store (buffer b1) (offset b1) (T_write c e),
                  offset := offset b1 + length (T_write c e),
                  num_entries := num_entries b1 + 1\<rparr>]"
    by (rule add_step)
  have ji: "j = i" using j idx by simp
  let ?b = "buckets d ! i"
  have nth: "buckets d' ! i = b1\<lparr>buffer := store (buffer b1) (offset b1) (T_write c e),
                  offset := offset b1 + length (T_write c e),
                  num_entries := num_entries b1 + 1\<rparr>"
    using bs' il ji by simp
  show ?thesis
  proof (cases "length (buffer ?b) < offset ?b + T_disk_size c")
    case True
    then have fl: "flush ?b fs = (None, b1, fs')" using step ji by simp
    note f = flush_ok [OF fl]
    show ?thesis using True fl f(1,4,5) f(6) nth fit len store_length [OF fit] by simp
  next
    case False
    then have "b1 = ?b" "fs' = fs" using step ji by simp_all
    then show ?thesis using False nth fit len store_length [OF fit] by simp
  qed
qed

theorem add_flushes_before_overflow_witness:
  "offset (buckets (fst (snd (add_all example_ops [5, 6] example_world))) ! 0) = 2
   \<and> fst (add example_ops 3 (snd (add_all example_ops [5, 6] example_world))) = None
   \<and> offset (buckets (fst (snd (add example_ops 3 (snd (add_all example_ops [5, 6] example_world))))) ! 0) = 1
   \<and> file (buckets (fst (snd (add example_ops 3 (snd (add_all example_ops [5, 6] example_world))))) ! 0)
        = Some (Writer ''t.sort_bucket_0.tmp'' [5, 6])
   \<and> stream_bytes (snd (snd (add example_ops 3 (snd (add_all example_ops [5, 6] example_world)))))
        (file (buckets (fst (snd (add example_ops 3 (snd (add_all example_ops [5, 6] example_world))))) ! 0))
        = Some [5, 6]
   \<and> files (snd (snd (add example_ops 3 (snd (add_all example_ops [5, 6] example_world)))))
        ''t.sort_bucket_0.tmp'' = Some []"
proof -
  define w where "w = snd (add_all example_ops [5, 6] example_world)"
  define w' where "w' = snd (add example_ops 3 w)"
  have a: "add example_ops 3 (fst w, snd w) = (None, (fst w', snd w'))"
    unfolding w'_def w_def by (simp add: example_defs eval_defs)
  have b: "bucket_index example_ops (fst w) 3 = Some 0"
    unfolding w_def by (simp add: example_defs eval_defs)
  have c: "length (T_write example_ops 3) = T_disk_size example_ops"
    by (simp add: example_defs)
  have d: "offset (buckets (fst w) ! 0) = 2" "length (buffer (buckets (fst w) ! 0)) = 2"
    "stream_bytes (snd w) (file (buckets (fst w) ! 0)) = Some []"
    "buffer (buckets (fst w) ! 0) = [5, 6]"
    unfolding w_def by (simp_all add: example_defs eval_defs stream_bytes_def)
  have e: "T_disk_size example_ops = 1" by (simp add: example_defs)
  have f: "file (buckets (fst w') ! 0) = Some (Writer ''t.sort_bucket_0.tmp'' [5, 6])"
    unfolding w'_def w_def by (simp add: example_defs eval_defs)
  have g: "files (snd w') ''t.sort_bucket_0.tmp'' = Some []"
    unfolding w'_def w_def by (simp add: example_defs eval_defs)
  show ?thesis
    using add_flushes_before_overflow [OF a b c] a d e f g
    unfolding w'_def [symmetric] w_def [symmetric] by simp
qed

subsection \<open>Grouping into sub-blocks\<close>

lemma fst_table_push_old:
  "k \<in> fst ` set t \<Longrightarrow> map fst (table_push k e t) = map fst t"
  by (induction t) force+

lemma fst_table_push_new:
  "k \<notin> fst ` set t \<Longrightarrow> map fst (table_push k e t) = map fst t @ [k]"
  by (induction t) auto

lemma set_table_push:
  "p \<in> set (table_push k e t) \<Longrightarrow>
     p \<in> set t \<or> p = (k, [e]) \<or> (\<exists>b. (k, b) \<in> set t \<and> p = (k, b @ [e]))"
  by (induction t) (auto split: if_splits)

lemma table_push_inv:
  assumes "table_inv c M tbl"
  shows "table_inv c M (table_push (Key c e div M) e tbl)"
proof -
  have "distinct (map fst (table_push (Key c e div M) e tbl))"
    using assms fst_table_push_old [of "Key c e div M" tbl e]
      fst_table_push_new [of "Key c e div M" tbl e]
    by (cases "Key c e div M \<in> fst ` set tbl") (auto simp: table_inv_def)
  moreover have "snd p \<noteq> [] \<and> (\<forall>x \<in> set (snd p). Key c x div M = fst p)"
    if "p \<in> set (table_push (Key c e div M) e tbl)" for p
  proof -
    from set_table_push [OF that] consider "p \<in> set tbl" | "p = (Key c e div M, [e])"
      | b where "(Key c e div M, b) \<in> set tbl" "p = (Key c e div M, b @ [e])" by blast
    then show ?thesis
    proof cases
      case 1
      then show ?thesis using assms by (simp add: table_inv_def)
    next
      case 2
      then show ?thesis by simp
    next
      case 3
      from 3(1) assms have "\<forall>x \<in> set b. Key c x div M = Key c e div M"
        unfolding table_inv_def by fastforce
      then show ?thesis using 3(2) by simp
    qed
  qed
  ultimately show ?thesis by (simp add: table_inv_def)
qed

lemma foldl_table_inv:
  assumes "table_inv c M tbl"
  shows "table_inv c M (foldl (\<lambda>t k. let entry = g k in table_push (Key c entry div M) entry t) tbl ks)"
  using assms by (induction ks arbitrary: tbl) (simp_all add: table_push_inv Let_def)

lemma group_chunk_inv: "table_inv c M tbl \<Longrightarrow> table_inv c M (group_chunk c M buf num tbl)"
  unfolding group_chunk_def by (rule foldl_table_inv)

lemma read_chunks_inv:
  "table_inv c M tbl \<Longrightarrow> table_inv c M (snd (snd (read_chunks c M fs n i f tbl)))"
proof (induction c M fs n i f tbl rule: read_chunks.induct)
  case (1 c M fs n i f tbl)
  show ?case
  proof (cases "i < n")
    case False
    then show ?thesis using "1.prems" by (simp add: read_chunks.simps)
  next
    case True
    obtain buf got f' where fr: "fread (T_disk_size c) (min chunk_N (n - i)) f fs = (buf, got, f')"
      by (cases "fread (T_disk_size c) (min chunk_N (n - i)) f fs") auto
    show ?thesis
    proof (cases "got = min chunk_N (n - i) \<and> M \<noteq> 0")
      case False
      then show ?thesis using True fr "1.prems"
        by (subst read_chunks.simps) (auto simp: Let_def)
    next
      case good: True
      have "table_inv c M (snd (snd (read_chunks c M fs n (i + min chunk_N (n - i)) f'
              (group_chunk c M buf (min chunk_N (n - i)) tbl))))"
        using "1.IH" [OF True refl fr [symmetric] refl] good
          group_chunk_inv [OF "1.prems"] by simp
      then show ?thesis using True fr good
        by (subst read_chunks.simps) (simp add: Let_def)
    qed
  qed
qed

lemma set_map_emplace: "set (map_emplace k v m) \<subseteq> insert (k, v) (set m)"
  by (induction m) (auto split: if_splits)

lemma fst_set_map_emplace: "fst ` set (map_emplace k v m) = insert k (fst ` set m)"
proof (induction m)
  case Nil
  then show ?case by simp
next
  case (Cons p m)
  obtain k' v' where p: "p = (k', v')" by (cases p)
  show ?case using Cons by (simp add: p insert_commute)
qed

lemma sorted_map_emplace:
  "sorted_wrt (<) (map fst m) \<Longrightarrow> sorted_wrt (<) (map fst (map_emplace k v m))"
proof (induction m)
  case Nil
  then show ?case by simp
next
  case (Cons p m)
  obtain k' v' where p: "p = (k', v')" by (cases p)
  have "\<forall>x \<in> fst ` set (map_emplace k v m). k' < x" if "k' < k"
    using Cons.prems that by (auto simp: fst_set_map_emplace p)
  then show ?case using Cons by (auto simp: p)
qed

lemma fold_emplace_sorted:
  "sorted_wrt (<) (map fst m) \<Longrightarrow>
   sorted_wrt (<) (map fst (fold (\<lambda>(k, blk). map_emplace k blk) tbl m))"
  by (induction tbl arbitrary: m) (auto simp: sorted_map_emplace)

lemma fold_emplace_set:
  "set (fold (\<lambda>(k, blk). map_emplace k blk) tbl m) \<subseteq> set tbl \<union> set m"
proof (induction tbl arbitrary: m)
  case Nil
  then show ?case by simp
next
  case (Cons p tbl)
  obtain k v where p: "p = (k, v)" by (cases p)
  show ?case using Cons [of "map_emplace k v m"] set_map_emplace [of k v m]
    by (auto simp: p)
qed

lemma blocks_of_grouped:
  assumes "table_inv c M tbl"
  shows "(\<forall>blk \<in> set (blocks_of tbl). blk \<noteq> [] \<and> (\<forall>e \<in> set blk. Key c e div M = Key c (hd blk) div M))
       \<and> sorted_wrt (<) (map (\<lambda>blk. Key c (hd blk) div M) (blocks_of tbl))"
proof -
  define m where "m = fold (\<lambda>(k, blk). map_emplace k blk) tbl []"
  have sub: "set m \<subseteq> set tbl" unfolding m_def using fold_emplace_set [of tbl "[]"] by simp
  have srt: "sorted_wrt (<) (map fst m)" unfolding m_def by (rule fold_emplace_sorted) simp
  have inv: "snd p \<noteq> [] \<and> (\<forall>e \<in> set (snd p). Key c e div M = fst p)" if "p \<in> set m" for p
    using that sub assms unfolding table_inv_def by blast
  have key: "Key c (hd (snd p)) div M = fst p" if "p \<in> set m" for p
    using inv [OF that] by (cases "snd p") auto
  have bo: "blocks_of tbl = map snd m" by (simp add: blocks_of_def m_def)
  have eq: "map (\<lambda>blk. Key c (hd blk) div M) (map snd m) = map fst m"
    using key by (simp add: comp_def)
  have 2: "sorted_wrt (<) (map (\<lambda>blk. Key c (hd blk) div M) (blocks_of tbl))"
    unfolding bo eq by (rule srt)
  have 1: "blk \<noteq> [] \<and> (\<forall>e \<in> set blk. Key c e div M = Key c (hd blk) div M)"
    if "blk \<in> set (blocks_of tbl)" for blk
  proof -
    from that obtain p where pm: "p \<in> set m" "blk = snd p" unfolding bo by auto
    from inv [OF pm(1)] key [OF pm(1)] pm(2) show ?thesis by simp
  qed
  show ?thesis using 1 2 by blast
qed

lemma table_inv_Nil: "table_inv c M []" by (simp add: table_inv_def)

lemma read_bucket_out:
  "\<exists>tbl. table_inv c M tbl \<and> snd (snd (read_bucket c i M w)) = blocks_of tbl"
proof -
  obtain d fs where w: "w = (d, fs)" by (cases w)
  define b where "b = buckets d ! i"
  define fs0 where "fs0 = (case file b of None \<Rightarrow> fs | Some f \<Rightarrow> snd (fclose (Some f) fs))"
  obtain fo fs' where fo: "fopen (file_name b) ''rb'' fs0 = (fo, fs')"
    by (cases "fopen (file_name b) ''rb'' fs0")
  show ?thesis
  proof (cases fo)
    case None
    then have "snd (snd (read_bucket c i M w)) = blocks_of []"
      using fo by (simp add: read_bucket_def w b_def [symmetric] fs0_def [symmetric] blocks_of_def Let_def)
    then show ?thesis using table_inv_Nil by blast
  next
    case (Some f)
    obtain e f' tbl where rc: "read_chunks c M fs' (num_entries b) 0 f [] = (e, f', tbl)"
      by (cases "read_chunks c M fs' (num_entries b) 0 f []")
    have ti: "table_inv c M tbl"
      using read_chunks_inv [OF table_inv_Nil, of c M fs' "num_entries b" 0 f] rc by simp
    show ?thesis
    proof (cases e)
      case None
      then have "snd (snd (read_bucket c i M w)) = blocks_of tbl"
        using fo Some rc
        by (simp add: read_bucket_def w b_def [symmetric] fs0_def [symmetric] blocks_of_def Let_def)
      then show ?thesis using ti by blast
    next
      case (Some err)
      then have "snd (snd (read_bucket c i M w)) = blocks_of []"
        using fo \<open>fo = Some f\<close> rc
        by (simp add: read_bucket_def w b_def [symmetric] fs0_def [symmetric] blocks_of_def Let_def)
      then show ?thesis using table_inv_Nil by blast
    qed
  qed
qed

text \<open>
  C2: whatever \<open>read_bucket\<close> returns for a bucket and a target size \<open>M\<close>, every sub-block
  is non-empty and its entries share one value of \<open>key / M\<close>, and these values are
  strictly ascending along the sequence of sub-blocks.
\<close>

theorem read_bucket_partitions:
  "(\<forall>blk \<in> set (snd (snd (read_bucket c i M w))).
       blk \<noteq> [] \<and> (\<forall>e \<in> set blk. Key c e div M = Key c (hd blk) div M))
   \<and> sorted_wrt (<) (map (\<lambda>blk. Key c (hd blk) div M) (snd (snd (read_bucket c i M w))))"
proof -
  obtain tbl where ti: "table_inv c M tbl"
    and eq: "snd (snd (read_bucket c i M w)) = blocks_of tbl"
    using read_bucket_out by blast
  show ?thesis unfolding eq by (rule blocks_of_grouped [OF ti])
qed


theorem read_bucket_partitions_witness:
  "snd (snd (read_bucket example_ops 0 4 example_finished)) = [[3], [5, 6, 7, 5]]
   \<and> sorted_wrt (<) (map (\<lambda>blk. Key example_ops (hd blk) div 4) [[3], [5, 6, 7, 5 :: byte]])"
proof -
  have a: "snd (snd (read_bucket example_ops 0 4 example_finished)) = [[3], [5, 6, 7, 5]]"
    by (simp add: example_defs eval_defs)
  have b: "sorted_wrt (<) (map (\<lambda>blk. Key example_ops (hd blk) div 4)
      (snd (snd (read_bucket example_ops 0 4 example_finished))))"
    using read_bucket_partitions [of example_ops 0 4 example_finished] by (rule conjunct2)
  show ?thesis using a b by (simp only:)
qed


subsection \<open>Reading does not change what is read\<close>

lemma fopen_rb_fs: "snd (fopen name ''rb'' fs) = fs"
  by (simp add: fopen_def split: option.splits)

lemma fopen_rb_Reader:
  "fopen name ''rb'' fs = (Some f, fs') \<Longrightarrow> f = Reader name 0"
  by (auto simp: fopen_def split: if_splits option.splits)

lemma map_update_same: "f y = f (xs ! i) \<Longrightarrow> map f (xs[i := y]) = map f xs"
  by (induction xs arbitrary: i) (auto split: nat.splits)

lemma ball_list_update:
  "\<forall>b \<in> set xs. P b \<Longrightarrow> P x \<Longrightarrow> \<forall>b \<in> set (xs[i := x]). P b"
  using set_update_subset_insert [of xs i x] by auto

lemma fs_same:
  "fs\<lparr>files := files fs, free := free fs\<rparr> = (fs :: filesystem)"
  by simp

lemma transmit_nothing:
  "bytes = [] \<or> free fs = 0 \<or> files fs name = None \<Longrightarrow> snd (transmit name bytes fs) = fs"
  by (auto simp: transmit_def Let_def fun_upd_idem split: option.splits)

lemma settled_fclose:
  "settled fs b \<Longrightarrow> file b = Some f \<Longrightarrow> snd (fclose (Some f) fs) = fs"
  by (cases f) (auto simp: settled_def fclose_def transmit_nothing)

lemma settled_mono:
  assumes "settled fs b" and "free fs' \<le> free fs"
    and "\<And>n. (files fs' n = None) = (files fs n = None)"
  shows "settled fs' b"
  using assms by (auto simp: settled_def split: option.splits stream.splits)

lemma fread_stream:
  "fread sz cnt (Reader name p) fs = (buf, got, f') \<Longrightarrow> \<exists>p'. f' = Reader name p'"
  by (auto simp: fread_def Let_def split: option.splits)

lemma read_chunks_stream:
  "f = Reader name p \<Longrightarrow> \<exists>p'. fst (snd (read_chunks c M fs n i f tbl)) = Reader name p'"
proof (induction c M fs n i f tbl arbitrary: p rule: read_chunks.induct)
  case (1 c M fs n i f tbl)
  show ?case
  proof (cases "i < n")
    case False
    then show ?thesis using "1.prems" by (simp add: read_chunks.simps)
  next
    case True
    obtain buf got f' where fr: "fread (T_disk_size c) (min chunk_N (n - i)) f fs = (buf, got, f')"
      by (cases "fread (T_disk_size c) (min chunk_N (n - i)) f fs") auto
    from fread_stream [OF fr [unfolded "1.prems"]] obtain p' where f': "f' = Reader name p'" by blast
    show ?thesis
    proof (cases "got = min chunk_N (n - i) \<and> M \<noteq> 0")
      case False
      then show ?thesis using True fr f'
        by (subst read_chunks.simps) (auto simp: Let_def)
    next
      case good: True
      have nk: "\<not> got \<noteq> min chunk_N (n - i)" and M: "M \<noteq> 0" using good by simp_all
      from "1.IH" [OF True refl fr [symmetric] refl nk M f']
      show ?thesis using True fr good
        by (subst read_chunks.simps) (simp add: Let_def)
    qed
  qed
qed

text \<open>
  On a settled bucket, \<open>read_bucket\<close> leaves the file system alone and yields what
  \<open>bucket_blocks\<close> gives for the bucket's file name and record count; the bucket ends
  with a reader or a null handle.
\<close>

lemma read_bucket_char:
  assumes rb: "read_bucket c i M (d, fs) = (e, (d', fs'), out)"
    and st: "settled fs (buckets d ! i)"
  shows "fs' = fs" and "bucket_blocks c M fs (bucket_key (buckets d ! i)) = (e, out)"
    and "map bucket_key (buckets d') = map bucket_key (buckets d)"
    and "is_finished d' = is_finished d"
    and "\<forall>b \<in> set (buckets d). settled fs b \<Longrightarrow> \<forall>b \<in> set (buckets d'). settled fs b"
proof -
  define b where "b = buckets d ! i"
  define fs0 where "fs0 = (case file b of None \<Rightarrow> fs | Some f \<Rightarrow> snd (fclose (Some f) fs))"
  have fs0: "fs0 = fs"
    unfolding fs0_def using settled_fclose [OF st [folded b_def]] by (cases "file b") simp_all
  obtain fo fs1 where fo: "fopen (file_name b) ''rb'' fs = (fo, fs1)"
    by (cases "fopen (file_name b) ''rb'' fs")
  have fs1: "fs1 = fs" using fopen_rb_fs [of "file_name b" fs] fo by simp
  obtain e2 f2 tbl where rc: "\<And>f. fo = Some f \<Longrightarrow> read_chunks c M fs1 (num_entries b) 0 f [] = (e2, f2, tbl)"
    by (cases fo; cases "read_chunks c M fs1 (num_entries b) 0 (the fo) []") auto
  have unf: "read_bucket c i M (d, fs) =
      (case fo of
         None \<Rightarrow> (Some (Runtime_error ''fopen() failed''),
                  (d\<lparr>buckets := (buckets d)[i := b\<lparr>file := None\<rparr>]\<rparr>, fs), [])
       | Some f \<Rightarrow>
           (case e2 of
              Some er \<Rightarrow> (Some er, (d\<lparr>buckets := (buckets d)[i := b\<lparr>file := Some f2\<rparr>]\<rparr>, fs), [])
            | None \<Rightarrow> (None, (d\<lparr>buckets := (buckets d)[i := b\<lparr>file := Some f2\<rparr>]\<rparr>, fs),
                       blocks_of tbl)))"
    using fo fs1 rc
    by (cases fo; cases e2)
      (simp_all add: read_bucket_def Let_def b_def [symmetric] fs0_def [symmetric] fs0 blocks_of_def)
  have upd: "map bucket_key ((buckets d)[i := b\<lparr>file := x\<rparr>]) = map bucket_key (buckets d)" for x
    by (rule map_update_same) (simp add: bucket_key_def b_def)
  show "fs' = fs" using rb unf by (cases fo; cases e2) auto
  show "bucket_blocks c M fs (bucket_key (buckets d ! i)) = (e, out)"
    using rb unf fo fs1 rc
    by (cases fo; cases e2) (auto simp: bucket_blocks_def bucket_key_def b_def [symmetric])
  show "map bucket_key (buckets d') = map bucket_key (buckets d)"
    using rb unf upd by (cases fo; cases e2) auto
  show "is_finished d' = is_finished d"
    using rb unf by (cases fo; cases e2) auto
  show "\<forall>b \<in> set (buckets d'). settled fs b" if all: "\<forall>b \<in> set (buckets d). settled fs b"
  proof -
    have rd: "\<exists>q. f2 = Reader (file_name b) q" if "fo = Some f" for f
    proof -
      have "f = Reader (file_name b) 0" using fopen_rb_Reader [of "file_name b" fs f fs1] fo that by simp
      from read_chunks_stream [OF this, of c M fs1 "num_entries b" 0 "[]"] rc [OF that]
      show ?thesis by simp
    qed
    have new: "settled fs (b\<lparr>file := None\<rparr>)" "fo \<noteq> None \<Longrightarrow> settled fs (b\<lparr>file := Some f2\<rparr>)"
      using rd by (auto simp: settled_def)
    obtain y where y: "buckets d' = (buckets d)[i := b\<lparr>file := y\<rparr>]" "settled fs (b\<lparr>file := y\<rparr>)"
      using rb unf new by (cases fo; cases e2) auto
    show ?thesis unfolding y(1) by (rule ball_list_update [OF all y(2)])
  qed
qed

lemma read_buckets_char:
  assumes "read_buckets c M idx (d, fs) = (e, (d', fs'), units)"
    and "\<forall>i \<in> set idx. i < length (buckets d)"
    and "\<forall>b \<in> set (buckets d). settled fs b"
  shows "fs' = fs \<and> run_units c M fs (map (\<lambda>i. map bucket_key (buckets d) ! i) idx) = (e, units)
    \<and> map bucket_key (buckets d') = map bucket_key (buckets d)
    \<and> is_finished d' = is_finished d
    \<and> (\<forall>b \<in> set (buckets d'). settled fs b)"
  using assms
proof (induction idx arbitrary: d e d' fs' units)
  case Nil
  then show ?case by simp
next
  case (Cons i idx)
  obtain e1 d1 fs1 out where rb: "read_bucket c i M (d, fs) = (e1, (d1, fs1), out)"
    by (cases "read_bucket c i M (d, fs)") auto
  have il: "i < length (buckets d)" using Cons.prems(2) by simp
  have sti: "settled fs (buckets d ! i)" using Cons.prems(3) il by simp
  note ch = read_bucket_char [OF rb sti]
  have st1: "\<forall>b \<in> set (buckets d1). settled fs b" by (rule ch(5) [OF Cons.prems(3)])
  have bk: "map bucket_key (buckets d) ! i = bucket_key (buckets d ! i)" using il by simp
  show ?case
  proof (cases e1)
    case (Some err)
    then show ?thesis using Cons.prems(1) rb ch(1-4) st1 bk by (auto simp del: nth_map)
  next
    case None
    obtain e2 d2 fs2 us where rest: "read_buckets c M idx (d1, fs) = (e2, (d2, fs2), us)"
      by (cases "read_buckets c M idx (d1, fs)") auto
    have len: "length (buckets d1) = length (buckets d)"
      using ch(3) by (metis length_map)
    have "\<forall>i \<in> set idx. i < length (buckets d1)" using Cons.prems(2) len by simp
    from Cons.IH [OF rest this st1] have ih: "fs2 = fs"
      "run_units c M fs (map (\<lambda>i. map bucket_key (buckets d) ! i) idx) = (e2, us)"
      "map bucket_key (buckets d2) = map bucket_key (buckets d1)" "is_finished d2 = is_finished d1"
      "\<forall>b \<in> set (buckets d2). settled fs b"
      using ch(3) by simp_all
    have res: "e = e2" "d' = d2" "fs' = fs2" "units = sort_bucket c out @ us"
      using Cons.prems(1) rb None rest ch(1) by simp_all
    have "run_units c M fs (map (\<lambda>i. map bucket_key (buckets d) ! i) (i # idx))
        = (e2, sort_bucket c out @ us)"
      using ch(2) None ih(2) bk by (simp del: nth_map)
    then show ?thesis using res ih ch(1-4) by (simp del: nth_map)
  qed
qed

lemma read_char:
  assumes "read c M (d, fs) = (e, (d', fs'), units)"
    and "\<forall>b \<in> set (buckets d). settled fs b"
  shows "fs' = fs" and "run_units c M fs (map bucket_key (buckets d)) = (e, units)"
    and "map bucket_key (buckets d') = map bucket_key (buckets d)"
    and "is_finished d' = is_finished d"
    and "\<forall>b \<in> set (buckets d'). settled fs b"
proof -
  have a: "read_buckets c M [0..<length (buckets d)] (d, fs) = (e, (d', fs'), units)"
    using assms(1) by (simp add: read_def)
  have b: "\<forall>i \<in> set [0..<length (buckets d)]. i < length (buckets d)" by simp
  have c: "map (\<lambda>i. map bucket_key (buckets d) ! i) [0..<length (buckets d)] = map bucket_key (buckets d)"
    using map_nth [of "map bucket_key (buckets d)"] by simp
  from read_buckets_char [OF a b assms(2)] show "fs' = fs"
    and "run_units c M fs (map bucket_key (buckets d)) = (e, units)"
    and "map bucket_key (buckets d') = map bucket_key (buckets d)"
    and "is_finished d' = is_finished d"
    and "\<forall>b \<in> set (buckets d'). settled fs b"
    unfolding c by simp_all
qed

lemma bucket_key_maps:
  "map bucket_key bs' = map bucket_key bs \<longleftrightarrow>
     map file_name bs' = map file_name bs \<and> map num_entries bs' = map num_entries bs"
  by (auto simp: list_eq_iff_nth_eq bucket_key_def)

text \<open>After a \<open>finish\<close> that returned, every bucket is settled.\<close>

lemma fflush_settles:
  assumes "fflush (file b) fs = (ok, f2, fs2)"
  shows "settled fs2 (b\<lparr>file := f2\<rparr>)" and "free fs2 \<le> free fs"
    and "\<And>n. (files fs2 n = None) = (files fs n = None)"
  using assms
  by (auto simp: fflush_def transmit_def settled_def Let_def min_def
           split: option.splits stream.splits if_splits)

lemma flush_buckets_settled:
  "flush_buckets bs fs = (None, bs', fs') \<Longrightarrow>
     (\<forall>b \<in> set bs'. settled fs' b) \<and> free fs' \<le> free fs
     \<and> (\<forall>n. (files fs' n = None) = (files fs n = None))"
proof (induction bs arbitrary: fs bs' fs')
  case Nil
  then show ?case by simp
next
  case (Cons b bs)
  obtain q b1 fs1 where fl: "flush b fs = (q, b1, fs1)" by (cases "flush b fs") auto
  have q: "q = None" using Cons.prems fl by (cases q) simp_all
  obtain ok f2 fs2 where ff: "fflush (file b1) fs1 = (ok, f2, fs2)"
    by (cases "fflush (file b1) fs1") auto
  obtain q3 bs3 fs3 where fb: "flush_buckets bs fs2 = (q3, bs3, fs3)"
    by (cases "flush_buckets bs fs2") auto
  have res: "q3 = None" "bs' = b1\<lparr>file := f2\<rparr> # bs3" "fs' = fs3"
    using Cons.prems fl q ff fb by simp_all
  note f = flush_ok [OF fl [unfolded q]]
  note s = fflush_settles [OF ff]
  note ih = Cons.IH [OF fb [unfolded res(1)]]
  have "settled fs3 (b1\<lparr>file := f2\<rparr>)"
    by (rule settled_mono [OF s(1)]) (use ih in simp_all)
  moreover have "free fs3 \<le> free fs" using ih s(2) f(8) by simp
  moreover have "(files fs3 n = None) = (files fs n = None)" for n
    using ih s(3) f(10) by simp
  ultimately show ?case using ih res by simp
qed

lemma finish_settled:
  assumes "fst (finish w) = None"
  shows "\<forall>b \<in> set (buckets (fst (snd (finish w)))). settled (snd (snd (finish w))) b"
proof -
  obtain d fs where w: "w = (d, fs)" by (cases w)
  obtain r bs fs1 where fb: "flush_buckets (buckets d) fs = (r, bs, fs1)"
    by (cases "flush_buckets (buckets d) fs") auto
  have r: "r = None" using assms fb by (cases r) (simp_all add: finish_def w)
  show ?thesis using flush_buckets_settled [OF fb [unfolded r]] fb r by (simp add: finish_def w)
qed

text \<open>
  C10: on a finalized engine (\<open>finish\<close> has returned), \<open>read\<close> leaves the file system (so
  the contents of every bucket file), every bucket's record count and file name, and the
  finished flag as they were; and a second \<open>read\<close> with the same \<open>M\<close>, from the state the
  first one left, ends the same way and forwards the same units.
\<close>

theorem read_twice:
  assumes "fst (finish w0) = None" and "w = snd (finish w0)"
  shows "snd (fst (snd (read c M w))) = snd w
   \<and> map num_entries (buckets (fst (fst (snd (read c M w))))) = map num_entries (buckets (fst w))
   \<and> map file_name (buckets (fst (fst (snd (read c M w))))) = map file_name (buckets (fst w))
   \<and> is_finished (fst (fst (snd (read c M w)))) = is_finished (fst w)
   \<and> fst (read c M (fst (snd (read c M w)))) = fst (read c M w)
   \<and> snd (snd (read c M (fst (snd (read c M w))))) = snd (snd (read c M w))"
proof -
  obtain d fs where w: "w = (d, fs)" by (cases w)
  have fw: "snd (finish w0) = (d, fs)" using assms(2) w by simp
  have st: "\<forall>b \<in> set (buckets d). settled fs b"
    using finish_settled [OF assms(1)] unfolding fw by simp
  obtain e d' fs' units where r: "read c M (d, fs) = (e, (d', fs'), units)"
    by (cases "read c M (d, fs)") auto
  note c1 = read_char [OF r st]
  obtain e2 d2 fs2 units2 where r2: "read c M (d', fs) = (e2, (d2, fs2), units2)"
    by (cases "read c M (d', fs)") auto
  note c2 = read_char [OF r2 c1(5)]
  have "(e2, units2) = (e, units)" using c1(2) c2(2) c1(3) by simp
  then show ?thesis using c1(1,3,4) r r2 by (simp add: w bucket_key_maps)
qed

theorem read_twice_witness:
  "fst (finish (snd (add_all example_ops example_entries example_world))) = None
   \<and> map block (snd (snd (read example_ops 4 example_finished))) = [[3], [5, 5, 6, 7], [9], [12]]
   \<and> map block (snd (snd (read example_ops 4 (fst (snd (read example_ops 4 example_finished))))))
      = [[3], [5, 5, 6, 7], [9], [12]]"
proof -
  have h: "fst (finish (snd (add_all example_ops example_entries example_world))) = None"
    by (simp add: example_defs eval_defs)
  have a: "map block (snd (snd (read example_ops 4 example_finished))) = [[3], [5, 5, 6, 7], [9], [12]]"
    by (simp add: example_defs eval_defs)
  show ?thesis
    using h a read_twice [OF h example_finished_def, of example_ops 4] by simp
qed


subsection \<open>Bucket files are distinct\<close>

lemma digit_inj: "m < 10 \<Longrightarrow> n < 10 \<Longrightarrow> digit m = digit n \<Longrightarrow> m = n"
proof -
  assume a: "m < 10" "n < 10" "digit m = digit n"
  have "distinct ''0123456789''" by simp
  moreover have "m < length ''0123456789''" "n < length ''0123456789''" using a by simp_all
  ultimately show "m = n" using a(3) unfolding digit_def by (simp only: nth_eq_iff_index_eq)
qed

lemma to_string_nonempty: "to_string n \<noteq> []"
  by (subst to_string.simps) simp

lemma to_string_inj: "to_string m = to_string n \<Longrightarrow> m = n"
proof (induction m arbitrary: n rule: to_string.induct)
  case (1 m)
  show ?case
  proof (cases "m < 10")
    case True
    then have m: "to_string m = [digit m]" by (subst to_string.simps) simp
    show ?thesis
    proof (cases "n < 10")
      case n: True
      then have "to_string n = [digit n]" by (subst to_string.simps) simp
      then show ?thesis using m "1.prems" True n digit_inj by simp
    next
      case False
      then have "to_string n = to_string (n div 10) @ [digit (n mod 10)]"
        by (subst to_string.simps) simp
      then show ?thesis using m "1.prems" to_string_nonempty [of "n div 10"] by simp
    qed
  next
    case False
    then have m: "to_string m = to_string (m div 10) @ [digit (m mod 10)]"
      by (subst to_string.simps) simp
    show ?thesis
    proof (cases "n < 10")
      case True
      then have "to_string n = [digit n]" by (subst to_string.simps) simp
      then show ?thesis using m "1.prems" to_string_nonempty [of "m div 10"] by simp
    next
      case n: False
      then have "to_string n = to_string (n div 10) @ [digit (n mod 10)]"
        by (subst to_string.simps) simp
      then have "to_string (m div 10) = to_string (n div 10)" "digit (m mod 10) = digit (n mod 10)"
        using m "1.prems" by simp_all
      then have "m div 10 = n div 10" "m mod 10 = n mod 10"
        using "1.IH" [OF False] digit_inj [of "m mod 10" "n mod 10"] by simp_all
      then show ?thesis by (metis div_mult_mod_eq)
    qed
  qed
qed

lemma bucket_file_name_inj: "bucket_file_name p i = bucket_file_name p j \<Longrightarrow> i = j"
  by (simp add: bucket_file_name_def to_string_inj)

lemma fopen_wb:
  "fopen name ''wb'' fs = (Some f, fs') \<Longrightarrow>
     f = Writer name [] \<and> files fs' = (files fs)(name \<mapsto> [])"
  by (auto simp: fopen_def split: if_splits)

lemma fopen_wb_None: "fopen name ''wb'' fs = (None, fs') \<Longrightarrow> fs' = fs"
  by (auto simp: fopen_def split: if_splits)

lemma open_buckets_keeps_empty:
  "open_buckets p cap idx fs = (e, bs, fs') \<Longrightarrow> files fs name = Some [] \<Longrightarrow> files fs' name = Some []"
proof (induction idx arbitrary: fs e bs fs')
  case Nil
  then show ?case by simp
next
  case (Cons i idx)
  obtain fo fs1 where fo: "fopen (bucket_file_name p i) ''wb'' fs = (fo, fs1)"
    by (cases "fopen (bucket_file_name p i) ''wb'' fs")
  show ?case
  proof (cases fo)
    case None
    then show ?thesis using Cons.prems fo fopen_wb_None [of _ fs fs1] by auto
  next
    case (Some f)
    obtain e2 bs2 fs2 where r: "open_buckets p cap idx fs1 = (e2, bs2, fs2)"
      by (cases "open_buckets p cap idx fs1") auto
    have "files fs1 name = Some []" using fopen_wb [of _ fs f fs1] fo Some Cons.prems(2) by simp
    from Cons.IH [OF r this] show ?thesis using Cons.prems(1) fo Some r by simp
  qed
qed

lemma open_buckets_ok:
  "open_buckets p cap idx fs = (None, bs, fs') \<Longrightarrow>
     bs = map (\<lambda>i. fresh_bucket (bucket_file_name p i) cap) idx \<and>
     (\<forall>i \<in> set idx. files fs' (bucket_file_name p i) = Some [])"
proof (induction idx arbitrary: fs bs fs')
  case Nil
  then show ?case by simp
next
  case (Cons i idx)
  obtain fo fs1 where fo: "fopen (bucket_file_name p i) ''wb'' fs = (fo, fs1)"
    by (cases "fopen (bucket_file_name p i) ''wb'' fs")
  show ?case
  proof (cases fo)
    case None
    then show ?thesis using Cons.prems fo by simp
  next
    case (Some f)
    obtain e2 bs2 fs2 where r: "open_buckets p cap idx fs1 = (e2, bs2, fs2)"
      by (cases "open_buckets p cap idx fs1") auto
    have e2: "e2 = None" "bs = \<lparr>file = Some f, file_name = bucket_file_name p i,
                    offset = 0, num_entries = 0, buffer = replicate cap 0\<rparr> # bs2" "fs' = fs2"
      using Cons.prems fo Some r by simp_all
    note w = fopen_wb [OF fo [unfolded Some]]
    have "files fs1 (bucket_file_name p i) = Some []" using w by simp
    then have here: "files fs2 (bucket_file_name p i) = Some []"
      using open_buckets_keeps_empty [OF r] by simp
    from Cons.IH [OF r [unfolded e2(1)]] show ?thesis
      using e2 here w by (simp add: fresh_bucket_def)
  qed
qed

lemma construct_ok:
  assumes "construct ks lnb nt p cap fs = (Inr d, fs')"
  shows "key_size d = ks" "log_num_buckets d = lnb" "\<not> is_finished d"
    "buckets d = map (\<lambda>i. fresh_bucket (bucket_file_name p i) cap) [0..<2 ^ nat lnb]"
    "\<forall>i < 2 ^ nat lnb. files fs' (bucket_file_name p i) = Some []"
proof -
  obtain e bs fs1 where ob: "open_buckets p cap [0..<2 ^ nat lnb] fs = (e, bs, fs1)"
    by (cases "open_buckets p cap [0..<2 ^ nat lnb] fs") auto
  from assms ob have e: "e = None" and d: "d = \<lparr>key_size = ks, log_num_buckets = lnb, num_threads = nt,
                      is_finished = False, buckets = bs\<rparr>" and fs: "fs' = fs1"
    by (auto simp: construct_def split: if_splits option.splits)
  note ok = open_buckets_ok [OF ob [unfolded e]]
  show "key_size d = ks" "log_num_buckets d = lnb" "\<not> is_finished d" using d by simp_all
  show "buckets d = map (\<lambda>i. fresh_bucket (bucket_file_name p i) cap) [0..<2 ^ nat lnb]"
    using ok d by simp
  show "\<forall>i < 2 ^ nat lnb. files fs' (bucket_file_name p i) = Some []"
    using ok fs by simp
qed

lemma construct_inv:
  assumes "construct ks lnb nt p cap fs = (Inr d, fs')"
  shows "world_inv c (d, fs') []"
proof -
  note ok = construct_ok [OF assms]
  have "inj_on (bucket_file_name p) (set [0..<2 ^ nat lnb])"
    by (rule inj_onI) (rule bucket_file_name_inj)
  then have "distinct (map file_name (buckets d))"
    by (simp add: ok(4) comp_def fresh_bucket_def distinct_map)
  moreover have "bucket_inv c fs' (buckets d ! i) (routed c d [] i)" if "i < length (buckets d)" for i
    using that ok(5)
    by (simp add: ok(4) bucket_inv_def routed_def fresh_bucket_def stream_bytes_def stream_name_def)
  ultimately show ?thesis by (simp add: world_inv_def)
qed


subsection \<open>Ingestion keeps stream and buffer in step\<close>

lemma bucket_inv_other_file:
  assumes "bucket_inv c fs b es" and "files fs' (file_name b) = files fs (file_name b)"
  shows "bucket_inv c fs' b es"
  using assms
  by (auto simp: bucket_inv_def stream_bytes_def stream_name_def split: option.splits stream.splits)

lemma bucket_inv_bytes:
  assumes "bucket_inv c fs b es"
  obtains data where "stream_bytes fs (file b) = Some data"
    and "data @ take (offset b) (buffer b) = concat (map (T_write c) es)"
    and "stream_name (file b) = Some (file_name b)"
    and "num_entries b = length es" and "offset b \<le> length (buffer b)"
  using assms by (auto simp: bucket_inv_def split: option.splits)

text \<open>One successful add.\<close>

lemma add_ok:
  assumes inv: "world_inv c (d, fs) es"
    and sz: "length (T_write c e) = T_disk_size c"
    and ok: "add c e (d, fs) = (None, (d', fs'))"
  shows "world_inv c (d', fs') (es @ [e])"
    and "key_size d' = key_size d" and "log_num_buckets d' = log_num_buckets d"
    and "map file_name (buckets d') = map file_name (buckets d)"
    and "\<exists>i < length (buckets d). bucket_index c d e = Some i"
proof -
  from ok obtain i b1 where idx: "bucket_index c d e = Some i" and il: "i < length (buckets d)"
    and step: "(if length (buffer (buckets d ! i)) < offset (buckets d ! i) + T_disk_size c
          then flush (buckets d ! i) fs else (None, buckets d ! i, fs)) = (None, b1, fs')"
    and fit: "offset b1 + length (T_write c e) \<le> length (buffer b1)"
    and bs0: "buckets d' = (buckets d)[i :=
               b1\<lparr>buffer := store (buffer b1) (offset b1) (T_write c e),
                  offset := offset b1 + length (T_write c e),
                  num_entries := num_entries b1 + 1\<rparr>]"
    and ks: "key_size d' = key_size d" and lnb: "log_num_buckets d' = log_num_buckets d"
    by (rule add_step)
  define b where "b = buckets d ! i"
  define L where "L = routed c d es i"
  define fl where "fl = (length (buffer b) < offset b + T_disk_size c)"
  have binv: "bucket_inv c fs b L" using inv il by (simp add: world_inv_def b_def L_def)
  have dist: "distinct (map file_name (buckets d))" using inv by (simp add: world_inv_def)
  have step1: "(if fl then flush b fs else (None, b, fs)) = (None, b1, fs')"
    unfolding fl_def b_def by (rule step)
  define b2 where "b2 = b1\<lparr>buffer := store (buffer b1) (offset b1) (T_write c e),
                  offset := offset b1 + length (T_write c e),
                  num_entries := num_entries b1 + 1\<rparr>"
  from binv obtain data where bytes: "stream_bytes fs (file b) = Some data"
    and cat: "data @ take (offset b) (buffer b) = concat (map (T_write c) L)"
    and sname: "stream_name (file b) = Some (file_name b)"
    and cnt: "num_entries b = length L" and off: "offset b \<le> length (buffer b)"
    by (rule bucket_inv_bytes)
  have b1inv: "bucket_inv c fs' b1 L" and names: "file_name b1 = file_name b"
    and others: "\<And>name. name \<noteq> file_name b \<Longrightarrow> files fs' name = files fs name"
  proof -
    show "bucket_inv c fs' b1 L"
    proof (cases fl)
      case True
      with step1 have f: "flush b fs = (None, b1, fs')" by simp
      note k = flush_ok [OF f]
      show ?thesis using k(1-5) k(6) [OF bytes] sname cnt cat by (simp add: bucket_inv_def)
    next
      case False
      with step1 binv show ?thesis by simp
    qed
    show "file_name b1 = file_name b"
    proof (cases fl)
      case True
      with step1 have f: "flush b fs = (None, b1, fs')" by simp
      from flush_ok(3) [OF f] show ?thesis .
    next
      case False
      with step1 show ?thesis by simp
    qed
    show "files fs' name = files fs name" if "name \<noteq> file_name b" for name
    proof (cases fl)
      case True
      with step1 have f: "flush b fs = (None, b1, fs')" by simp
      show ?thesis by (rule flush_ok(7) [OF f]) (use that sname in simp)
    next
      case False
      with step1 show ?thesis by simp
    qed
  qed
  have b2inv: "bucket_inv c fs' b2 (L @ [e])"
  proof -
    from b1inv obtain data1 where 1: "stream_bytes fs' (file b1) = Some data1"
      and 2: "data1 @ take (offset b1) (buffer b1) = concat (map (T_write c) L)"
      and 3: "stream_name (file b1) = Some (file_name b1)"
      and 4: "num_entries b1 = length L"
      by (rule bucket_inv_bytes)
    have "data1 @ take (offset b2) (buffer b2) = concat (map (T_write c) (L @ [e]))"
      using 2 store_take [OF fit] by (simp add: b2_def)
    then show ?thesis
      using 1 3 4 fit store_length [OF fit] by (simp add: bucket_inv_def b2_def)
  qed
  have bs': "buckets d' = (buckets d)[i := b2]" using bs0 by (simp add: b2_def)
  have idx': "bucket_index c d' x = bucket_index c d x" for x
    using ks lnb by (simp add: bucket_index_def)
  show fn: "map file_name (buckets d') = map file_name (buckets d)"
    unfolding bs' by (rule map_update_same) (simp add: b2_def names b_def)
  show "key_size d' = key_size d" "log_num_buckets d' = log_num_buckets d" by (rule ks, rule lnb)
  show "\<exists>i < length (buckets d). bucket_index c d e = Some i" using idx il by blast
  have "bucket_inv c fs' (buckets d' ! j) (routed c d' (es @ [e]) j)" if jl: "j < length (buckets d')" for j
  proof (cases "j = i")
    case True
    have "routed c d' (es @ [e]) i = L @ [e]"
      by (simp add: routed_def idx' idx L_def)
    then show ?thesis using b2inv il True by (simp add: bs')
  next
    case False
    have jl': "j < length (buckets d)" using jl by (simp add: bs')
    have r: "routed c d' (es @ [e]) j = routed c d es j"
      using False idx by (simp add: routed_def idx')
    have "file_name (buckets d ! j) \<noteq> file_name b"
      using dist False jl' il unfolding b_def
      by (simp add: distinct_conv_nth)
    then have same: "files fs' (file_name (buckets d ! j)) = files fs (file_name (buckets d ! j))"
      by (rule others)
    have "bucket_inv c fs (buckets d ! j) (routed c d es j)"
      using inv jl' by (simp add: world_inv_def)
    then have "bucket_inv c fs' (buckets d ! j) (routed c d es j)"
      using same by (rule bucket_inv_other_file)
    then show ?thesis using False r by (simp add: bs')
  qed
  then show "world_inv c (d', fs') (es @ [e])"
    using dist fn by (simp add: world_inv_def)
qed

lemma add_all_ok:
  assumes "world_inv c (d, fs) es0"
    and "\<forall>e. length (T_write c e) = T_disk_size c"
    and "add_all c es (d, fs) = (None, (d', fs'))"
  shows "world_inv c (d', fs') (es0 @ es) \<and>
     key_size d' = key_size d \<and> log_num_buckets d' = log_num_buckets d \<and>
     map file_name (buckets d') = map file_name (buckets d) \<and>
     (\<forall>e \<in> set es. \<exists>i < length (buckets d). bucket_index c d e = Some i)"
  using assms
proof (induction es arbitrary: d fs es0)
  case Nil
  then show ?case by simp
next
  case (Cons e es)
  obtain r d1 fs1 where a: "add c e (d, fs) = (r, (d1, fs1))"
    by (cases "add c e (d, fs)") auto
  with Cons.prems(3) have r: "r = None" and rest: "add_all c es (d1, fs1) = (None, (d', fs'))"
    by (auto split: option.splits)
  note one = add_ok [OF Cons.prems(1) Cons.prems(2) [rule_format] a [unfolded r]]
  have bi: "bucket_index c d1 x = bucket_index c d x" for x
    using one(2,3) by (simp add: bucket_index_def)
  have len: "length (buckets d1) = length (buckets d)" using one(4) by (metis length_map)
  from Cons.IH [OF one(1) Cons.prems(2) rest] one show ?case
    by (simp add: bi len)
qed

subsection \<open>The buckets after \<open>finish\<close>\<close>

lemma fflush_keeps:
  assumes "fflush fl fs = (ok, f2, fs2)"
  shows "stream_bytes fs2 f2 = stream_bytes fs fl" and "stream_name f2 = stream_name fl"
    and "\<And>n. stream_name fl \<noteq> Some n \<Longrightarrow> files fs2 n = files fs n"
  using assms
  by (auto simp: fflush_def transmit_def stream_bytes_def stream_name_def Let_def
           split: option.splits stream.splits)

text \<open>
  \<open>finish\<close> empties every bucket's buffer into its stream. What has reached the file by
  then is a matter of the device: the bytes of the stream, file and buffer together, are
  the serialised entries.
\<close>

lemma flush_buckets_ok:
  assumes "distinct (map file_name bs)"
    and "list_all2 (bucket_inv c fs) bs Ls"
    and "flush_buckets bs fs = (None, bs', fs')"
  shows "list_all2 (bucket_inv c fs') bs' Ls
    \<and> (\<forall>b \<in> set bs'. offset b = 0)
    \<and> map file_name bs' = map file_name bs
    \<and> (\<forall>name. name \<notin> set (map file_name bs) \<longrightarrow> files fs' name = files fs name)"
  using assms
proof (induction bs arbitrary: Ls fs bs' fs')
  case Nil
  then show ?case by simp
next
  case (Cons b bs)
  from Cons.prems(2) obtain L Ls' where Ls: "Ls = L # Ls'" and binv: "bucket_inv c fs b L"
    and rest: "list_all2 (bucket_inv c fs) bs Ls'"
    by (auto simp: list_all2_Cons1)
  obtain q b1 fs1 where fl: "flush b fs = (q, b1, fs1)" by (cases "flush b fs") auto
  have q: "q = None" using Cons.prems(3) fl by (cases q) simp_all
  obtain ok f2 fs2 where ff: "fflush (file b1) fs1 = (ok, f2, fs2)"
    by (cases "fflush (file b1) fs1") auto
  obtain q3 bs3 fs3 where fb: "flush_buckets bs fs2 = (q3, bs3, fs3)"
    by (cases "flush_buckets bs fs2") auto
  have res: "q3 = None" "bs' = b1\<lparr>file := f2\<rparr> # bs3" "fs' = fs3"
    using Cons.prems(3) fl q ff fb by simp_all
  note f = flush_ok [OF fl [unfolded q]]
  note k = fflush_keeps [OF ff]
  from binv obtain data where bytes: "stream_bytes fs (file b) = Some data"
    and cat: "data @ take (offset b) (buffer b) = concat (map (T_write c) L)"
    and sname: "stream_name (file b) = Some (file_name b)"
    and cnt: "num_entries b = length L"
    by (rule bucket_inv_bytes)
  let ?b2 = "b1\<lparr>file := f2\<rparr>"
  have b2inv: "bucket_inv c fs2 ?b2 L"
    using f(1-5) f(6) [OF bytes] k(1,2) sname cnt cat by (simp add: bucket_inv_def)
  have nb: "file_name b \<notin> set (map file_name bs)" and dist: "distinct (map file_name bs)"
    using Cons.prems(1) by simp_all
  have other2: "files fs2 n = files fs n" if "n \<noteq> file_name b" for n
  proof -
    have "files fs2 n = files fs1 n" by (rule k(3)) (use that f(2) sname in simp)
    also have "\<dots> = files fs n" by (rule f(7)) (use that sname in simp)
    finally show ?thesis .
  qed
  have rest2: "list_all2 (bucket_inv c fs2) bs Ls'"
  proof -
    have "bucket_inv c fs2 (bs ! j) (Ls' ! j)" if "j < length bs" for j
    proof -
      have "file_name (bs ! j) \<noteq> file_name b" using nb that by (metis nth_map nth_mem length_map)
      then have "files fs2 (file_name (bs ! j)) = files fs (file_name (bs ! j))" by (rule other2)
      moreover have "bucket_inv c fs (bs ! j) (Ls' ! j)"
        using rest that by (simp add: list_all2_conv_all_nth)
      ultimately show ?thesis using bucket_inv_other_file by blast
    qed
    then show ?thesis using rest by (simp add: list_all2_conv_all_nth)
  qed
  note ih = Cons.IH [OF dist rest2 fb [unfolded res(1)]]
  have head: "bucket_inv c fs3 ?b2 L"
  proof (rule bucket_inv_other_file [OF b2inv])
    show "files fs3 (file_name ?b2) = files fs2 (file_name ?b2)" using ih nb f(3) by simp
  qed
  have 1: "list_all2 (bucket_inv c fs') bs' Ls" using ih head res Ls by simp
  have 2: "\<forall>x \<in> set bs'. offset x = 0" using ih res f(1) by simp
  have 3: "map file_name bs' = map file_name (b # bs)" using ih res f(3) by simp
  have 4: "files fs' name = files fs name" if "name \<notin> set (map file_name (b # bs))" for name
    using that ih other2 [of name] res by simp
  show ?case using 1 2 3 4 by blast
qed

lemma length_concat_fixed:
  "\<forall>e. length (T_write c e) = T_disk_size c \<Longrightarrow>
     length (concat (map (T_write c) es)) = length es * T_disk_size c"
  by (induction es) simp_all

lemma world_inv_list_all2:
  "world_inv c (d, fs) es \<longleftrightarrow>
     distinct (map file_name (buckets d)) \<and>
     list_all2 (bucket_inv c fs) (buckets d) (map (routed c d es) [0..<length (buckets d)])"
  by (simp add: world_inv_def list_all2_conv_all_nth)

lemma finish_ok:
  assumes inv: "world_inv c (d, fs) es" and fin: "finish (d, fs) = (None, (d', fs'))"
  shows "world_inv c (d', fs') es" and "\<forall>b \<in> set (buckets d'). offset b = 0"
    and "map file_name (buckets d') = map file_name (buckets d)"
    and "is_finished d'" and "key_size d' = key_size d" and "log_num_buckets d' = log_num_buckets d"
proof -
  obtain r bs fs1 where fb: "flush_buckets (buckets d) fs = (r, bs, fs1)"
    by (cases "flush_buckets (buckets d) fs") auto
  have r: "r = None" and d': "d' = d\<lparr>buckets := bs, is_finished := True\<rparr>" and fs': "fs' = fs1"
    using fin fb by (cases r; simp add: finish_def)+
  have dist: "distinct (map file_name (buckets d))" using inv by (simp add: world_inv_def)
  have la: "list_all2 (bucket_inv c fs) (buckets d) (map (routed c d es) [0..<length (buckets d)])"
    using inv by (simp add: world_inv_list_all2)
  note ok = flush_buckets_ok [OF dist la fb [unfolded r]]
  have len: "length bs = length (buckets d)" using ok by (metis length_map)
  have rt: "routed c (d\<lparr>buckets := bs, is_finished := True\<rparr>) es = routed c d es"
    by (simp add: routed_def [abs_def] bucket_index_def)
  show "world_inv c (d', fs') es"
    unfolding world_inv_list_all2 using ok dist len by (simp add: d' fs' rt)
  show "\<forall>b \<in> set (buckets d'). offset b = 0" using ok d' by simp
  show "map file_name (buckets d') = map file_name (buckets d)" using ok d' by simp
  show "is_finished d'" "key_size d' = key_size d" "log_num_buckets d' = log_num_buckets d"
    using d' by simp_all
qed

text \<open>From the constructor to the end of \<open>finish\<close>.\<close>

lemma ingest_ok:
  assumes sz: "\<forall>e. length (T_write c e) = T_disk_size c"
    and new: "construct ks lnb nt p cap fs0 = (Inr d0, fs1)"
    and adds: "add_all c es (d0, fs1) = (None, w1)"
    and fin: "finish w1 = (None, (d2, fs2))"
  shows "length (buckets d2) = 2 ^ nat lnb"
    and "is_finished d2"
    and "\<forall>x. bucket_index c d2 x = bucket_index c d0 x"
    and "\<forall>e \<in> set es. \<exists>i < 2 ^ nat lnb. bucket_index c d0 e = Some i"
    and "\<forall>i < 2 ^ nat lnb.
          bucket_key (buckets d2 ! i) = (bucket_file_name p i, length (routed c d0 es i))
          \<and> (\<exists>dev pending. file (buckets d2 ! i) = Some (Writer (bucket_file_name p i) pending)
                \<and> files fs2 (bucket_file_name p i) = Some dev
                \<and> dev @ pending = concat (map (T_write c) (routed c d0 es i)))"
proof -
  obtain d1 fs1' where w1: "w1 = (d1, fs1')" by (cases w1)
  note c = construct_ok [OF new]
  have inv0: "world_inv c (d0, fs1) []" by (rule construct_inv [OF new])
  from add_all_ok [OF inv0 sz adds [unfolded w1]]
  have inv1: "world_inv c (d1, fs1') es" and ks: "key_size d1 = key_size d0"
    and lnb: "log_num_buckets d1 = log_num_buckets d0"
    and names: "map file_name (buckets d1) = map file_name (buckets d0)"
    and routed_all: "\<forall>e \<in> set es. \<exists>i < length (buckets d0). bucket_index c d0 e = Some i"
    by simp_all
  note f = finish_ok [OF inv1 fin [unfolded w1]]
  have len0: "length (buckets d0) = 2 ^ nat lnb" using c(4) by simp
  have names2: "map file_name (buckets d2) = map file_name (buckets d0)" using f(3) names by simp
  have len2: "length (buckets d2) = 2 ^ nat lnb" using names2 len0 by (metis length_map)
  have bi2: "bucket_index c d2 x = bucket_index c d0 x" for x
    using f(5,6) ks lnb by (simp add: bucket_index_def)
  have r2: "routed c d2 es i = routed c d0 es i" for i by (simp add: routed_def bi2)
  show "length (buckets d2) = 2 ^ nat lnb" by (rule len2)
  show "is_finished d2" by (rule f(4))
  show "\<forall>x. bucket_index c d2 x = bucket_index c d0 x" using bi2 by simp
  show "\<forall>e \<in> set es. \<exists>i < 2 ^ nat lnb. bucket_index c d0 e = Some i"
    using routed_all len0 by simp
  have "bucket_key (buckets d2 ! i) = (bucket_file_name p i, length (routed c d0 es i))
      \<and> (\<exists>dev pending. file (buckets d2 ! i) = Some (Writer (bucket_file_name p i) pending)
                \<and> files fs2 (bucket_file_name p i) = Some dev
                \<and> dev @ pending = concat (map (T_write c) (routed c d0 es i)))"
    if i: "i < 2 ^ nat lnb" for i
  proof -
    let ?b = "buckets d2 ! i"
    have n2: "file_name ?b = bucket_file_name p i"
    proof -
      have "map file_name (buckets d2) ! i = map file_name (buckets d0) ! i" using names2 by simp
      then show ?thesis using i len0 len2 c(4) by (simp add: fresh_bucket_def)
    qed
    have binv: "bucket_inv c fs2 ?b (routed c d0 es i)"
      using f(1) i len2 r2 by (simp add: world_inv_def)
    have off: "offset ?b = 0" using f(2) i len2 by simp
    from binv obtain data where 1: "stream_bytes fs2 (file ?b) = Some data"
      and 2: "data @ take (offset ?b) (buffer ?b) = concat (map (T_write c) (routed c d0 es i))"
      and 3: "stream_name (file ?b) = Some (file_name ?b)"
      and 4: "num_entries ?b = length (routed c d0 es i)"
      by (rule bucket_inv_bytes)
    from 1 3 obtain dev pending where "file ?b = Some (Writer (file_name ?b) pending)"
      "files fs2 (file_name ?b) = Some dev" "data = dev @ pending"
      by (auto simp: stream_bytes_def stream_name_def split: option.splits stream.splits)
    then show ?thesis using 2 4 off n2 by (auto simp: bucket_key_def)
  qed
  then show "\<forall>i < 2 ^ nat lnb.
          bucket_key (buckets d2 ! i) = (bucket_file_name p i, length (routed c d0 es i))
          \<and> (\<exists>dev pending. file (buckets d2 ! i) = Some (Writer (bucket_file_name p i) pending)
                \<and> files fs2 (bucket_file_name p i) = Some dev
                \<and> dev @ pending = concat (map (T_write c) (routed c d0 es i)))"
    by blast
qed

text \<open>
  Where \<open>finish\<close> has left nothing in a bucket's stream, the file is the concatenation of
  the serialised entries routed to the bucket, each once and in the order of ingestion,
  and its length is \<open>num_entries * disk_size\<close>.
\<close>

lemma finish_file_contents_when_flushed:
  assumes "\<forall>e. length (T_write c e) = T_disk_size c"
    and "construct ks lnb nt p cap fs0 = (Inr d0, fs1)"
    and "add_all c es (d0, fs1) = (None, w1)"
    and "finish w1 = (None, (d2, fs2))"
    and "i < 2 ^ nat lnb"
    and "file (buckets d2 ! i) = Some (Writer name [])"
  shows "files fs2 (bucket_file_name p i) = Some (concat (map (T_write c) (routed c d0 es i)))
    \<and> num_entries (buckets d2 ! i) = length (routed c d0 es i)
    \<and> file_size fs2 (bucket_file_name p i) = num_entries (buckets d2 ! i) * T_disk_size c"
proof -
  note ok = ingest_ok [OF assms(1-4)]
  from ok(5) assms(5) obtain dev pending where
    k: "bucket_key (buckets d2 ! i) = (bucket_file_name p i, length (routed c d0 es i))"
    and f: "file (buckets d2 ! i) = Some (Writer (bucket_file_name p i) pending)"
      "files fs2 (bucket_file_name p i) = Some dev"
      "dev @ pending = concat (map (T_write c) (routed c d0 es i))"
    by blast
  have "pending = []" using f(1) assms(6) by simp
  then show ?thesis
    using k f length_concat_fixed [OF assms(1), of "routed c d0 es i"]
    by (simp add: bucket_key_def file_size_def)
qed

text \<open>
  C5: after ingestion and \<open>finish\<close>, the length of every bucket file is
  \<open>num_entries * disk_size\<close>. On the code \<open>finish\<close> does not look at the result of
  \<^verbatim>\<open>fflush\<close>: on a device with room for 3 bytes, five one-byte entries go to bucket 0,
  every \<open>add\<close> and \<open>finish\<close> return, and the file of bucket 0 holds 3 bytes for 5 entries.
  A \<open>read\<close> of that bucket then throws.
\<close>

theorem finish_short_file:
  "fst (add_all example_ops small_entries small_world) = None
   \<and> fst (finish small_added) = None
   \<and> is_finished (fst (snd (finish small_added)))
   \<and> num_entries (buckets (fst (snd (finish small_added))) ! 0) = 5
   \<and> files (snd (snd (finish small_added))) ''t.sort_bucket_0.tmp'' = Some [5, 6, 3]
   \<and> file_size (snd (snd (finish small_added))) ''t.sort_bucket_0.tmp'' = 3
   \<and> fst (read example_ops 4 (snd (finish small_added))) = Some (Runtime_error ''fread() failed'')"
  by (simp add: example_ops_def small_fs_def small_world_def small_entries_def small_added_def
        eval_defs)


subsection \<open>Keys, partitions and fixed-size records\<close>

lemma word_div_less_imp_less:
  fixes a b M :: "64 word"
  assumes "a div M < b div M"
  shows "a < b"
proof (rule ccontr)
  assume "\<not> a < b"
  then have "unat b \<le> unat a" by (simp add: word_le_nat_alt not_less)
  then have "unat b div unat M \<le> unat a div unat M" by (rule div_le_mono)
  then have "b div M \<le> a div M" by (simp add: word_le_nat_alt unat_div)
  with assms show False by simp
qed

lemma drop_bit_less_imp_less:
  fixes a b :: "64 word"
  assumes "unat (drop_bit n a) < unat (drop_bit n b)"
  shows "a < b"
proof (rule ccontr)
  assume "\<not> a < b"
  then have "unat b \<le> unat a" by (simp add: word_le_nat_alt not_less)
  then have "unat b div 2 ^ n \<le> unat a div 2 ^ n" by (rule div_le_mono)
  then have "unat (drop_bit n b) \<le> unat (drop_bit n a)"
    unfolding unat_drop_bit_eq by (simp add: drop_bit_eq_div)
  with assms show False by simp
qed

lemma concat_fixed_drop:
  "\<forall>x \<in> set xss. length x = n \<Longrightarrow> drop (k * n) (concat xss) = concat (drop k xss)"
proof (induction xss arbitrary: k)
  case Nil
  then show ?case by simp
next
  case (Cons x xss)
  then show ?case by (cases k) simp_all
qed

lemma concat_fixed_take:
  "\<forall>x \<in> set xss. length x = n \<Longrightarrow> take (k * n) (concat xss) = concat (take k xss)"
proof (induction xss arbitrary: k)
  case Nil
  then show ?case by simp
next
  case (Cons x xss)
  then show ?case by (cases k) simp_all
qed

lemma concat_fixed_nth:
  assumes "\<forall>x \<in> set xss. length x = n" and "k < length xss"
  shows "take n (drop (k * n) (concat xss)) = xss ! k"
proof -
  have "drop k xss = xss ! k # drop (Suc k) xss" using assms(2) by (simp add: Cons_nth_drop_Suc)
  moreover have "length (xss ! k) = n" using assms by simp
  ultimately show ?thesis by (simp add: concat_fixed_drop [OF assms(1)])
qed


subsection \<open>Reading a bucket file back\<close>

lemma group_entries_append:
  "group_entries c M tbl (xs @ ys) = group_entries c M (group_entries c M tbl xs) ys"
  by (simp add: group_entries_def)

lemma group_chunk_decode:
  assumes ok: "codec_ok c"
  shows "group_chunk c M (concat (map (T_write c) L)) (length L) tbl = group_entries c M tbl L"
proof -
  have len: "\<forall>x \<in> set (map (T_write c) L). length x = T_disk_size c"
    using ok by (simp add: codec_ok_def)
  have dec: "T_read c (take (T_disk_size c) (drop (k * T_disk_size c) (concat (map (T_write c) L)))) = L ! k"
    if "k < length L" for k
    using concat_fixed_nth [OF len, of k] that ok by (simp add: codec_ok_def)
  have "group_chunk c M (concat (map (T_write c) L)) (length L) tbl
      = foldl (\<lambda>t k. table_push (Key c (L ! k) div M) (L ! k) t) tbl [0..<length L]"
    unfolding group_chunk_def by (rule foldl_cong) (simp_all add: dec Let_def)
  also have "\<dots> = foldl (\<lambda>t e. table_push (Key c e div M) e t) tbl (map ((!) L) [0..<length L])"
    by (simp add: foldl_map)
  finally show ?thesis by (simp add: group_entries_def map_nth)
qed

lemma fread_Reader:
  assumes "files fs name = Some d"
  shows "fread sz cnt (Reader name p) fs =
    (take (min cnt ((length d - p) div sz) * sz) (drop p d), min cnt ((length d - p) div sz),
     Reader name (p + min cnt ((length d - p) div sz) * sz))"
  using assms by (simp add: fread_def Let_def)

lemma read_chunks_content:
  "\<lbrakk>codec_ok c; files fs name = Some (concat (map (T_write c) L)); n = length L;
    f = Reader name (i * T_disk_size c); i \<le> n;
    read_chunks c M fs n i f tbl = (None, f', tbl')\<rbrakk>
   \<Longrightarrow> tbl' = group_entries c M tbl (drop i L)"
proof (induction c M fs n i f tbl rule: read_chunks.induct)
  case (1 c M fs n i f tbl)
  show ?case
  proof (cases "i < n")
    case False
    then show ?thesis using "1.prems" by (simp add: read_chunks.simps group_entries_def)
  next
    case True
    let ?num = "min chunk_N (n - i)"
    let ?ds = "T_disk_size c"
    let ?data = "concat (map (T_write c) L)"
    let ?k = "min ?num ((length ?data - i * ?ds) div ?ds)"
    let ?buf = "take (?k * ?ds) (drop (i * ?ds) ?data)"
    let ?f1 = "Reader name (i * ?ds + ?k * ?ds)"
    have fr: "fread ?ds ?num f fs = (?buf, ?k, ?f1)"
      unfolding "1.prems"(4) by (rule fread_Reader [OF "1.prems"(2)])
    have unf: "read_chunks c M fs n i f tbl =
        (if ?k \<noteq> ?num then (Some (Runtime_error ''fread() failed''), ?f1, tbl)
         else if M = 0 then (Some (Undefined ''division by zero''), ?f1, tbl)
         else read_chunks c M fs n (i + ?num) ?f1 (group_chunk c M ?buf ?num tbl))"
      using True fr by (subst read_chunks.simps) (simp add: Let_def)
    have kn: "?k = ?num" and M: "M \<noteq> 0" using "1.prems"(6) unf by (auto split: if_splits)
    have len: "\<forall>x \<in> set (map (T_write c) L). length x = ?ds"
      using "1.prems"(1) by (simp add: codec_ok_def)
    define L1 where "L1 = take ?num (drop i L)"
    have numle: "i + ?num \<le> n" using True by simp
    have lenL1: "length L1 = ?num" using numle "1.prems"(3) by (simp add: L1_def)
    have "take (?num * ?ds) (drop (i * ?ds) ?data) = concat (map (T_write c) L1)"
      unfolding concat_fixed_drop [OF len]
      using concat_fixed_take [of "drop i (map (T_write c) L)" ?ds ?num] len
      by (simp add: L1_def take_map drop_map in_set_dropD)
    then have buf: "?buf = concat (map (T_write c) L1)" using kn by simp
    have gc: "group_chunk c M ?buf ?num tbl = group_entries c M tbl L1"
      unfolding buf using group_chunk_decode [OF "1.prems"(1), of M L1 tbl] lenL1 by simp
    have next_f: "?f1 = Reader name ((i + ?num) * ?ds)"
      using kn by (simp add: algebra_simps)
    have rest: "read_chunks c M fs n (i + ?num) ?f1 (group_chunk c M ?buf ?num tbl) = (None, f', tbl')"
      using "1.prems"(6) unf kn M by simp
    have nk: "\<not> ?k \<noteq> ?num" using kn by simp
    have "tbl' = group_entries c M (group_chunk c M ?buf ?num tbl) (drop (i + ?num) L)"
      by (rule "1.IH" [OF True refl fr [symmetric] refl nk M "1.prems"(1,2,3) next_f numle rest])
    moreover have "drop i L = L1 @ drop (i + ?num) L"
    proof -
      have "drop (i + ?num) L = drop ?num (drop i L)" by (simp add: add.commute)
      then show ?thesis unfolding L1_def by (simp only: append_take_drop_id)
    qed
    ultimately show ?thesis by (simp add: gc group_entries_append)
  qed
qed

text \<open>A run of the chunk loop that returns has read \<open>n\<close> whole records from the file.\<close>

lemma read_chunks_length:
  "\<lbrakk>files fs name = Some dev; f = Reader name (i * T_disk_size c); i \<le> n;
    i * T_disk_size c \<le> length dev;
    read_chunks c M fs n i f tbl = (None, f', tbl')\<rbrakk>
   \<Longrightarrow> n * T_disk_size c \<le> length dev"
proof (induction c M fs n i f tbl rule: read_chunks.induct)
  case (1 c M fs n i f tbl)
  show ?case
  proof (cases "i < n")
    case False
    then have "i = n" using "1.prems"(3) by simp
    then show ?thesis using "1.prems"(4) by simp
  next
    case True
    let ?num = "min chunk_N (n - i)"
    let ?ds = "T_disk_size c"
    let ?k = "min ?num ((length dev - i * ?ds) div ?ds)"
    let ?buf = "take (?k * ?ds) (drop (i * ?ds) dev)"
    let ?f1 = "Reader name (i * ?ds + ?k * ?ds)"
    have fr: "fread ?ds ?num f fs = (?buf, ?k, ?f1)"
      unfolding "1.prems"(2) by (rule fread_Reader [OF "1.prems"(1)])
    have unf: "read_chunks c M fs n i f tbl =
        (if ?k \<noteq> ?num then (Some (Runtime_error ''fread() failed''), ?f1, tbl)
         else if M = 0 then (Some (Undefined ''division by zero''), ?f1, tbl)
         else read_chunks c M fs n (i + ?num) ?f1 (group_chunk c M ?buf ?num tbl))"
      using True fr by (subst read_chunks.simps) (simp add: Let_def)
    have kn: "?k = ?num" and M: "M \<noteq> 0" using "1.prems"(5) unf by (auto split: if_splits)
    have num0: "0 < ?num" using True by (simp add: chunk_N_def)
    have ds: "0 < ?ds"
    proof (rule ccontr)
      assume "\<not> 0 < ?ds"
      then have "?k = 0" by simp
      with kn num0 show False by simp
    qed
    have "?num \<le> (length dev - i * ?ds) div ?ds" using kn by (simp add: min_def split: if_splits)
    then have "?num * ?ds \<le> length dev - i * ?ds"
      using ds by (simp add: less_eq_div_iff_mult_less_eq)
    then have le: "(i + ?num) * ?ds \<le> length dev"
      using "1.prems"(4) by (simp add: algebra_simps)
    have numle: "i + ?num \<le> n" using True by simp
    have next_f: "?f1 = Reader name ((i + ?num) * ?ds)"
      using kn by (simp add: algebra_simps)
    have rest: "read_chunks c M fs n (i + ?num) ?f1 (group_chunk c M ?buf ?num tbl) = (None, f', tbl')"
      using "1.prems"(5) unf kn M by simp
    have nk: "\<not> ?k \<noteq> ?num" using kn by simp
    show ?thesis
      by (rule "1.IH" [OF True refl fr [symmetric] refl nk M "1.prems"(1) next_f numle le rest])
  qed
qed

lemma mset_table_push:
  "mset (concat (map snd (table_push k e t))) = add_mset e (mset (concat (map snd t)))"
  by (induction t) auto

lemma mset_group_entries:
  "mset (concat (map snd (group_entries c M tbl es))) = mset (concat (map snd tbl)) + mset es"
  unfolding group_entries_def
  by (induction es arbitrary: tbl) (simp_all add: mset_table_push)

lemma group_entries_inv: "table_inv c M tbl \<Longrightarrow> table_inv c M (group_entries c M tbl es)"
  unfolding group_entries_def
  by (induction es arbitrary: tbl) (simp_all add: table_push_inv)

lemma mset_map_emplace:
  "k \<notin> fst ` set m \<Longrightarrow>
     mset (concat (map snd (map_emplace k v m))) = mset v + mset (concat (map snd m))"
  by (induction m) auto

lemma mset_fold_emplace:
  "distinct (map fst tbl) \<Longrightarrow> fst ` set tbl \<inter> fst ` set m = {} \<Longrightarrow>
     mset (concat (map snd (fold (\<lambda>(k, blk). map_emplace k blk) tbl m)))
       = mset (concat (map snd tbl)) + mset (concat (map snd m))"
proof (induction tbl arbitrary: m)
  case Nil
  then show ?case by simp
next
  case (Cons p tbl)
  obtain k v where p: "p = (k, v)" by (cases p)
  have k: "k \<notin> fst ` set m" "k \<notin> fst ` set tbl" using Cons.prems by (auto simp: p)
  have "fst ` set tbl \<inter> fst ` set (map_emplace k v m) = {}"
    using Cons.prems(2) k(2) by (auto simp: fst_set_map_emplace p)
  from Cons.IH [OF _ this] Cons.prems(1) show ?case
    by (simp add: p mset_map_emplace [OF k(1)])
qed

lemma mset_blocks_of:
  "table_inv c M tbl \<Longrightarrow> mset (concat (blocks_of tbl)) = mset (concat (map snd tbl))"
  unfolding blocks_of_def using mset_fold_emplace [of tbl "[]"] by (simp add: table_inv_def)

lemma fopen_rb_Some:
  "files fs name = Some d \<Longrightarrow> fopen name ''rb'' fs = (fo, fs') \<Longrightarrow>
     fo = None \<or> fo = Some (Reader name 0)"
  by (auto simp: fopen_def split: if_splits)

text \<open>
  What the read/group stage yields for a bucket of \<open>length L\<close> records whose file holds a
  prefix of the serialised entries \<open>L\<close>: a run that returns has found all of them in the
  file.
\<close>

lemma bucket_blocks_content:
  assumes ok: "codec_ok c"
    and dev: "files fs name = Some dev"
    and pre: "dev @ rest = concat (map (T_write c) L)"
    and res: "bucket_blocks c M fs (name, length L) = (None, out)"
  shows "mset (concat out) = mset L"
    and "\<forall>blk \<in> set out. \<forall>e \<in> set blk. Key c e div M = Key c (hd blk) div M"
    and "sorted_wrt (<) (map (\<lambda>blk. Key c (hd blk) div M) out)"
proof -
  obtain fo fs1 where fo: "fopen name ''rb'' fs = (fo, fs1)" by (cases "fopen name ''rb'' fs")
  have fs1: "fs1 = fs" using fopen_rb_fs [of name fs] fo by simp
  have fo': "fo = Some (Reader name 0)"
    using fopen_rb_Some [OF dev fo] res fo by (auto simp: bucket_blocks_def)
  obtain r f' tbl where rc: "read_chunks c M fs (length L) 0 (Reader name 0) [] = (r, f', tbl)"
    by (cases "read_chunks c M fs (length L) 0 (Reader name 0) []") auto
  have r: "r = None" and out: "out = blocks_of tbl"
    using res fo fo' fs1 rc by (cases r; simp add: bucket_blocks_def)+
  have sz: "\<forall>e. length (T_write c e) = T_disk_size c" using ok by (simp add: codec_ok_def)
  have l1: "length L * T_disk_size c \<le> length dev"
    using read_chunks_length [OF dev _ _ _ rc [unfolded r]] by simp
  have "length (dev @ rest) = length L * T_disk_size c"
    unfolding pre by (rule length_concat_fixed [OF sz])
  then have l2: "length dev + length rest = length L * T_disk_size c" by simp
  have "length rest = 0" using l1 l2 by arith
  then have "rest = []" by simp
  then have data: "files fs name = Some (concat (map (T_write c) L))" using dev pre by simp
  have tbl: "tbl = group_entries c M [] L"
    using read_chunks_content [OF ok data refl _ _ rc [unfolded r], of] by simp
  have inv: "table_inv c M tbl" unfolding tbl by (rule group_entries_inv [OF table_inv_Nil])
  show "mset (concat out) = mset L"
    unfolding out mset_blocks_of [OF inv] unfolding tbl mset_group_entries by simp
  note g = blocks_of_grouped [OF inv]
  show "\<forall>blk \<in> set out. \<forall>e \<in> set blk. Key c e div M = Key c (hd blk) div M"
    unfolding out using g by blast
  show "sorted_wrt (<) (map (\<lambda>blk. Key c (hd blk) div M) out)"
    unfolding out using g by blast
qed

subsection \<open>The emitted sequence\<close>

lemma sorted_concat_blocks:
  "\<forall>B \<in> set Bs. sorted (map f B) \<Longrightarrow>
   sorted_wrt (\<lambda>B1 B2. \<forall>x \<in> set B1. \<forall>y \<in> set B2. f x \<le> f y) Bs \<Longrightarrow>
   sorted (map f (concat Bs))"
  by (induction Bs) (auto simp: sorted_append)

lemma mset_concat_cong:
  "list_all2 (\<lambda>B L. mset B = mset L) Bs Ls \<Longrightarrow> mset (concat Bs) = mset (concat Ls)"
  by (induction Bs Ls rule: list_all2_induct) simp_all

lemma sort_bucket_blocks: "map block (sort_bucket c out) = map (std_sort c) out"
proof -
  have "map block (sort_bucket c out) = map (\<lambda>i. std_sort c (out ! i)) [0..<length out]"
    by (simp add: sort_bucket_def pool_forward_def sort_block_def comp_def)
  also have "\<dots> = map (std_sort c) out" by (rule nth_equalityI) simp_all
  finally show ?thesis .
qed

lemma sort_ok_facts:
  assumes "sort_ok c"
  shows "mset (std_sort c xs) = mset xs" and "sorted (map (Key c) (std_sort c xs))"
    and "set (std_sort c xs) = set xs"
proof -
  show m: "mset (std_sort c xs) = mset xs" and "sorted (map (Key c) (std_sort c xs))"
    using assms by (simp_all add: sort_ok_def)
  show "set (std_sort c xs) = set xs" using m by (rule mset_eq_setD)
qed

lemma sort_bucket_content:
  assumes so: "sort_ok c"
    and grouped: "\<forall>blk \<in> set out. \<forall>e \<in> set blk. Key c e div M = Key c (hd blk) div M"
    and asc: "sorted_wrt (<) (map (\<lambda>blk. Key c (hd blk) div M) out)"
  shows "mset (concat (map block (sort_bucket c out))) = mset (concat out)"
    and "sorted (map (Key c) (concat (map block (sort_bucket c out))))"
proof -
  note s = sort_ok_facts [OF so]
  show "mset (concat (map block (sort_bucket c out))) = mset (concat out)"
    unfolding sort_bucket_blocks by (induction out) (simp_all add: s(1))
  have cross: "sorted_wrt (\<lambda>B1 B2. \<forall>x \<in> set B1. \<forall>y \<in> set B2. Key c x \<le> Key c y)
      (map (std_sort c) out)"
  proof -
    have "sorted_wrt (\<lambda>b1 b2. Key c (hd b1) div M < Key c (hd b2) div M) out"
      using asc by (simp add: sorted_wrt_map)
    then have "sorted_wrt (\<lambda>b1 b2. \<forall>x \<in> set (std_sort c b1). \<forall>y \<in> set (std_sort c b2).
        Key c x \<le> Key c y) out"
    proof (rule sorted_wrt_mono_rel [rotated])
      fix b1 b2
      assume b: "b1 \<in> set out" "b2 \<in> set out"
        and lt: "Key c (hd b1) div M < Key c (hd b2) div M"
      show "\<forall>x \<in> set (std_sort c b1). \<forall>y \<in> set (std_sort c b2). Key c x \<le> Key c y"
      proof (intro ballI)
        fix x y
        assume "x \<in> set (std_sort c b1)" "y \<in> set (std_sort c b2)"
        then have "x \<in> set b1" "y \<in> set b2" by (simp_all add: s(3))
        then have "Key c x div M < Key c y div M" using grouped b lt by simp
        then have "Key c x < Key c y" by (rule word_div_less_imp_less)
        then show "Key c x \<le> Key c y" by simp
      qed
    qed
    then show ?thesis by (simp add: sorted_wrt_map)
  qed
  have each: "\<forall>B \<in> set (map (std_sort c) out). sorted (map (Key c) B)"
    by (auto simp: s(2))
  show "sorted (map (Key c) (concat (map block (sort_bucket c out))))"
    unfolding sort_bucket_blocks by (rule sorted_concat_blocks [OF each cross])
qed

text \<open>
  The units forwarded for a sequence of buckets whose files hold prefixes of the entry
  lists \<open>Ls\<close>: bucket after bucket, a sorted permutation of the bucket's entries.
\<close>

lemma run_units_content:
  assumes "codec_ok c" and "sort_ok c"
    and "list_all2 (\<lambda>k L. (\<exists>dev rest. files fs (fst k) = Some dev
            \<and> dev @ rest = concat (map (T_write c) L)) \<and> snd k = length L) ks Ls"
    and "run_units c M fs ks = (None, units)"
  shows "\<exists>Bs. concat (map block units) = concat Bs
    \<and> list_all2 (\<lambda>B L. mset B = mset L \<and> sorted (map (Key c) B)) Bs Ls"
  using assms(3,4)
proof (induction ks Ls arbitrary: units rule: list_all2_induct)
  case Nil
  then show ?case by simp
next
  case (Cons k ks L Ls)
  obtain name where k: "k = (name, length L)" using Cons.hyps(1) by (cases k) simp
  obtain dev rest where dev: "files fs name = Some dev"
    and pre: "dev @ rest = concat (map (T_write c) L)"
    using Cons.hyps(1) k by auto
  obtain r out where bb: "bucket_blocks c M fs (name, length L) = (r, out)"
    by (cases "bucket_blocks c M fs (name, length L)")
  obtain r2 us where ru: "run_units c M fs ks = (r2, us)" by (cases "run_units c M fs ks")
  have r: "r = None" using Cons.prems k bb by (cases r) simp_all
  have r2: "r2 = None" and units: "units = sort_bucket c out @ us"
    using Cons.prems k bb r ru by simp_all
  note bc = bucket_blocks_content [OF assms(1) dev pre bb [unfolded r]]
  note sc = sort_bucket_content [OF assms(2) bc(2,3)]
  from Cons.IH [OF ru [unfolded r2]] obtain Bs where
    Bs: "concat (map block us) = concat Bs"
      "list_all2 (\<lambda>B L. mset B = mset L \<and> sorted (map (Key c) B)) Bs Ls" by blast
  let ?B = "concat (map block (sort_bucket c out))"
  have "concat (map block units) = concat (?B # Bs)" using units Bs(1) by simp
  moreover have "list_all2 (\<lambda>B L. mset B = mset L \<and> sorted (map (Key c) B)) (?B # Bs) (L # Ls)"
    using Bs(2) sc bc(1) by simp
  ultimately show ?case by blast
qed

lemma mset_routed_upto:
  "mset (concat (map (\<lambda>i. filter (\<lambda>e. g e = Some i) es) [0..<n]))
     = mset (filter (\<lambda>e. \<exists>i < n. g e = Some i) es)"
proof (induction n)
  case 0
  then show ?case by simp
next
  case (Suc n)
  have "mset (filter (\<lambda>e. \<exists>i < n. g e = Some i) es) + mset (filter (\<lambda>e. g e = Some n) es)
      = mset (filter (\<lambda>e. \<exists>i < Suc n. g e = Some i) es)"
    by (induction es) (auto simp: less_Suc_eq)
  then show ?case using Suc by simp
qed

lemma mset_routed:
  assumes "\<forall>e \<in> set es. \<exists>i < n. bucket_index c d e = Some i"
  shows "mset (concat (map (routed c d es) [0..<n])) = mset es"
proof -
  have "filter (\<lambda>e. \<exists>i < n. bucket_index c d e = Some i) es = es" using assms by simp
  then show ?thesis
    using mset_routed_upto [of "bucket_index c d" es n] by (simp add: routed_def [abs_def])
qed

lemma routed_ordered:
  assumes "i < j" and "x \<in> set (routed c d es i)" and "y \<in> set (routed c d es j)"
  shows "Key c x \<le> Key c y"
proof -
  from assms(2,3) have xi: "bucket_index c d x = Some i" and yj: "bucket_index c d y = Some j"
    by (simp_all add: routed_def)
  let ?sh = "nat (key_size d - log_num_buckets d)"
  from xi yj have "unat (drop_bit ?sh (Key c x)) = i" "unat (drop_bit ?sh (Key c y)) = j"
    by (auto simp: bucket_index_def Let_def split: if_splits)
  then have "Key c x < Key c y" using assms(1) by (intro drop_bit_less_imp_less [of ?sh]) simp
  then show ?thesis by simp
qed

text \<open>
  C1: for every sequence of entries ingested by \<open>add\<close> into a fresh object, then
  finished and read back, the concatenation of the forwarded sub-blocks, in the order of
  forwarding, is a permutation of the ingested entries and its keys are non-decreasing.
  The buckets come in ascending index order, the sub-blocks of a bucket in ascending
  \<open>key / M\<close> order, and each sub-block sorted by key. \<^verbatim>\<open>std::sort\<close> is taken by its
  contract (\<open>sort_ok\<close>), the entry's \<open>read\<close> as the inverse of its \<open>write\<close> (\<open>codec_ok\<close>).
\<close>

theorem read_sorted_permutation:
  assumes codec: "codec_ok c" and so: "sort_ok c"
    and new: "construct ks lnb nt p cap fs0 = (Inr d0, fs1)"
    and adds: "add_all c es (d0, fs1) = (None, w1)"
    and fin: "finish w1 = (None, w2)"
    and rd: "read c M w2 = (None, w3, units)"
  shows "mset (concat (map block units)) = mset es
    \<and> sorted (map (Key c) (concat (map block units)))"
proof -
  obtain d2 fs2 where w2: "w2 = (d2, fs2)" by (cases w2)
  obtain d3 fs3 where w3: "w3 = (d3, fs3)" by (cases w3)
  have sz: "\<forall>e. length (T_write c e) = T_disk_size c" using codec by (simp add: codec_ok_def)
  note ok = ingest_ok [OF sz new adds fin [unfolded w2]]
  have st: "\<forall>b \<in> set (buckets d2). settled fs2 b"
    using finish_settled [of w1] fin by (simp add: w2)
  note rc = read_char [OF rd [unfolded w2 w3] st]
  let ?n = "2 ^ nat lnb :: nat"
  define Ls where "Ls = map (routed c d0 es) [0..<?n]"
  have "(\<exists>dev rest. files fs2 (fst (bucket_key (buckets d2 ! i))) = Some dev
            \<and> dev @ rest = concat (map (T_write c) (routed c d0 es i)))
        \<and> snd (bucket_key (buckets d2 ! i)) = length (routed c d0 es i)"
    if "i < ?n" for i
    using ok(5) that by fastforce
  then have "list_all2 (\<lambda>k L. (\<exists>dev rest. files fs2 (fst k) = Some dev
            \<and> dev @ rest = concat (map (T_write c) L)) \<and> snd k = length L)
      (map bucket_key (buckets d2)) Ls"
    using ok(1) by (simp add: list_all2_conv_all_nth Ls_def)
  from run_units_content [OF codec so this rc(2)] obtain Bs where
    cat: "concat (map block units) = concat Bs"
    and all: "list_all2 (\<lambda>B L. mset B = mset L \<and> sorted (map (Key c) B)) Bs Ls" by blast
  have len: "length Bs = ?n" using all by (simp add: list_all2_conv_all_nth Ls_def)
  have nth: "mset (Bs ! i) = mset (routed c d0 es i) \<and> sorted (map (Key c) (Bs ! i))"
    if "i < ?n" for i
    using all that by (simp add: list_all2_conv_all_nth Ls_def)
  have "list_all2 (\<lambda>B L. mset B = mset L) Bs Ls"
    using all by (rule list_all2_mono) simp
  then have "mset (concat Bs) = mset (concat Ls)" by (rule mset_concat_cong)
  also have "\<dots> = mset es" unfolding Ls_def by (rule mset_routed [OF ok(4)])
  finally have perm: "mset (concat (map block units)) = mset es" by (simp add: cat)
  have each: "\<forall>B \<in> set Bs. sorted (map (Key c) B)"
    using nth len by (auto simp: in_set_conv_nth)
  have cross: "sorted_wrt (\<lambda>B1 B2. \<forall>x \<in> set B1. \<forall>y \<in> set B2. Key c x \<le> Key c y) Bs"
  proof (unfold sorted_wrt_iff_nth_less, intro allI impI ballI)
    fix i j x y
    assume ij: "i < j" and j: "j < length Bs" and x: "x \<in> set (Bs ! i)" and y: "y \<in> set (Bs ! j)"
    have i': "i < ?n" and j': "j < ?n" using ij j len by simp_all
    have "mset (Bs ! i) = mset (routed c d0 es i)" using nth [OF i'] by simp
    then have si: "set (Bs ! i) = set (routed c d0 es i)" by (rule mset_eq_setD)
    have "mset (Bs ! j) = mset (routed c d0 es j)" using nth [OF j'] by simp
    then have sj: "set (Bs ! j) = set (routed c d0 es j)" by (rule mset_eq_setD)
    show "Key c x \<le> Key c y"
      by (rule routed_ordered [OF ij]) (use x y si sj in simp_all)
  qed
  have "sorted (map (Key c) (concat (map block units)))"
    unfolding cat by (rule sorted_concat_blocks [OF each cross])
  with perm show ?thesis by simp
qed

theorem read_sorted_permutation_witness:
  "map block (snd (snd (read example_ops 4 example_finished))) = [[3], [5, 5, 6, 7], [9], [12]]
   \<and> mset [3, 5, 5, 6, 7, 9, 12] = mset example_entries
   \<and> sorted (map (Key example_ops) [3, 5, 5, 6, 7, 9, 12])"
proof -
  define w1 where "w1 = snd (add_all example_ops example_entries example_world)"
  define r where "r = read example_ops 4 example_finished"
  have a: "codec_ok example_ops" by (simp add: codec_ok_def example_ops_def)
  have s: "sort_ok example_ops" by (simp add: sort_ok_def example_ops_def)
  have b: "construct 4 1 1 ''t'' 2 example_fs = (Inr (fst example_world), snd example_world)"
    by (simp add: example_defs eval_defs)
  have c: "add_all example_ops example_entries (fst example_world, snd example_world) = (None, w1)"
    unfolding w1_def by (simp add: example_defs eval_defs)
  have d: "finish w1 = (None, example_finished)"
    unfolding w1_def by (simp add: example_defs eval_defs)
  have e: "fst r = None" unfolding r_def by (simp add: example_defs eval_defs)
  have f: "map block (snd (snd r)) = [[3], [5, 5, 6, 7], [9], [12]]"
    unfolding r_def by (simp add: example_defs eval_defs)
  have g: "read example_ops 4 example_finished = (None, fst (snd r), snd (snd r))"
    using e unfolding r_def by (simp add: prod_eq_iff)
  show ?thesis
    using read_sorted_permutation [OF a s b c d g] f unfolding r_def [symmetric] by simp
qed

end
